theory Spec2Isabelle
  imports Complex_Main "HOL-Library.Word" "HOL-Library.Multiset" "HOL-Library.Log_Nat"
begin

section \<open>Strings, panics, machine integers and floating point\<close>

text \<open>
  The analyzer works on text. A Go string that holds well-formed UTF-8 is modelled as
  the list of its code points (runes), so that \<open>utf8.RuneCountInString\<close> is the
  length of the list, \<open>[]rune(s)\<close> is the list itself and \<open>strings.ToLower\<close> maps the
  rune function \<open>unicode.ToLower\<close> (a parameter \<open>L\<close> of the model) over it. The source
  takes byte offsets only behind a prefix test (\<open>word[5:]\<close> after
  \<open>HasPrefix(word, "po-")\<close> with the two Cyrillic letters of two bytes each), where the
  offset is a rune boundary; \<open>len\<close> in bytes is \<open>len_bytes\<close>.
\<close>

type_synonym rune = nat
type_synonym gostring = "rune list"
type_synonym byte = "8 word"

definition str :: "string \<Rightarrow> gostring" where
  "str s = map of_char s"

definition RuneLen :: "rune \<Rightarrow> nat" where
  "RuneLen r = (if r < 0x80 then 1 else if r < 0x800 then 2 else if r < 0x10000 then 3 else 4)"

definition len_bytes :: "gostring \<Rightarrow> nat" where
  "len_bytes s = sum_list (map RuneLen s)"

definition ToLower :: "(rune \<Rightarrow> rune) \<Rightarrow> gostring \<Rightarrow> gostring" where
  "ToLower L s = map L s"

fun HasPrefix :: "gostring \<Rightarrow> gostring \<Rightarrow> bool" where
  "HasPrefix s [] = True"
| "HasPrefix [] (p # ps) = False"
| "HasPrefix (c # cs) (p # ps) = (c = p \<and> HasPrefix cs ps)"

definition HasSuffix :: "gostring \<Rightarrow> gostring \<Rightarrow> bool" where
  "HasSuffix s suffix = HasPrefix (rev s) (rev suffix)"

definition TrimPrefix :: "gostring \<Rightarrow> gostring \<Rightarrow> gostring" where
  "TrimPrefix s prefix = (if HasPrefix s prefix then drop (length prefix) s else s)"

definition TrimSuffix :: "gostring \<Rightarrow> gostring \<Rightarrow> gostring" where
  "TrimSuffix s suffix = (if HasSuffix s suffix then take (length s - length suffix) s else s)"

fun Contains :: "gostring \<Rightarrow> gostring \<Rightarrow> bool" where
  "Contains [] substr = (substr = [])"
| "Contains (c # cs) substr = (HasPrefix (c # cs) substr \<or> Contains cs substr)"

text \<open>
  A run-time panic of the Go program is a value: every slice index, every slice
  expression and the explicit \<open>panic("not initialized; call Init or InitWith")\<close> of
  \<open>Parse\<close> is a branch of the model.
\<close>

datatype panic = NotInitialized | IndexOutOfRange | NilDereference

definition andThen :: "panic + 'a \<Rightarrow> ('a \<Rightarrow> panic + 'b) \<Rightarrow> panic + 'b" where
  "andThen m f = (case m of Inl e \<Rightarrow> Inl e | Inr x \<Rightarrow> f x)"

definition index :: "'a list \<Rightarrow> nat \<Rightarrow> panic + 'a" where
  "index xs i = (if i < length xs then Inr (xs ! i) else Inl IndexOutOfRange)"

definition sliceFrom :: "'a list \<Rightarrow> nat \<Rightarrow> panic + 'a list" where
  "sliceFrom xs k = (if k \<le> length xs then Inr (drop k xs) else Inl IndexOutOfRange)"

definition BigEndian_Uint16 :: "byte list \<Rightarrow> panic + 16 word" where
  "BigEndian_Uint16 b =
     (case b of
        b0 # b1 # _ \<Rightarrow> Inr (or (ucast b1) (push_bit 8 (ucast b0)))
      | _ \<Rightarrow> Inl IndexOutOfRange)"

text \<open>
  A finite \<open>float64\<close> is a rational number. The only \<open>float64\<close> values of the program
  are \<open>float64(x)\<close> for an integer \<open>x\<close> and the quotient of that by \<open>1e6\<close>. An integer
  of Go has at most 64 bits, so neither operation overflows or leaves the normal
  range, and all that they do is round the exact result to 53 significant bits, to
  the nearest such number and to the one with an even last bit when two are equally
  near. \<open>roundEven\<close> is the nearest integer with ties to even, \<open>ulpExponent x\<close> the
  exponent \<open>e\<close> of the last of the 53 bits of \<open>x\<close>, with
  \<open>2^52 \<le> \<bar>x\<bar> / 2^e < 2^53\<close>.
\<close>

type_synonym float64 = rat

definition roundEven :: "rat \<Rightarrow> int" where
  "roundEven x =
     (let f = \<lfloor>x\<rfloor>; r = x - of_int f
      in if r < 1 / 2 then f else if 1 / 2 < r then f + 1 else if even f then f else f + 1)"

definition ulpExponent :: "rat \<Rightarrow> int" where
  "ulpExponent x =
     (let (n, d) = quotient_of \<bar>x\<bar>; k = bitlen n - bitlen d
      in if 2 powi k \<le> \<bar>x\<bar> then k - 52 else k - 53)"

definition round64 :: "rat \<Rightarrow> float64" where
  "round64 x =
     (if x = 0 then 0
      else let u = 2 powi ulpExponent x in of_int (roundEven (x / u)) * u)"

text \<open>
  The conversion \<open>float64(v)\<close> of an integer and the division of two \<open>float64\<close>; the
  only divisor of the program is the constant \<open>1e6\<close>.
\<close>

definition float64_of_int :: "int \<Rightarrow> float64" where
  "float64_of_int v = round64 (of_int v)"

definition float64_div :: "float64 \<Rightarrow> float64 \<Rightarrow> float64" where
  "float64_div x y = round64 (x / y)"

section \<open>Process-wide dictionary state\<close>

text \<open>
  The automaton type \<open>dawg\<close> is declared outside the analysed files; the analyzer uses
  two of its operations, which are the two fields here: the approximate lookup
  \<open>similarItems\<close> (matched keys with their payload records, in traversal order) and
  the exact lookup \<open>Dict.find\<close>.
\<close>

record dawg =
  similarItems :: "gostring \<Rightarrow> (gostring \<times> byte list list) list"
  Dict_find :: "gostring \<Rightarrow> int"

record globals =
  prefixes :: "gostring list"
  suffixes :: "gostring list"
  tags :: "gostring list"
  paradigms :: "16 word list list"
  wordsDAWG :: "dawg option"
  probDAWG :: "dawg option"
  predictionDAWGs :: "dawg list"

section \<open>Paradigm decoding and the dictionary analyzer\<close>

definition prefixSuffixTag ::
  "globals \<Rightarrow> 16 word list \<Rightarrow> nat \<Rightarrow> panic + (gostring \<times> gostring \<times> gostring)" where
  "prefixSuffixTag G para i =
     (let n = length para div 3 in
      andThen (index para i) (\<lambda>suffixIndex.
      andThen (index para (i + n)) (\<lambda>tagIndex.
      andThen (index para (i + 2 * n)) (\<lambda>prefixIndex.
      andThen (index (prefixes G) (unat prefixIndex)) (\<lambda>p.
      andThen (index (suffixes G) (unat suffixIndex)) (\<lambda>s.
      andThen (index (tags G) (unat tagIndex)) (\<lambda>t.
      Inr (p, s, t))))))))"

text \<open>
  The normal form of a matched key, as both \<open>Parse\<close> and the suffix prediction of
  \<open>XParse\<close> compute it: the key itself for form 0, otherwise the stem between the
  form's own prefix and suffix, wrapped in the prefix and suffix of form 0.
\<close>

definition normalForm ::
  "globals \<Rightarrow> 16 word list \<Rightarrow> nat \<Rightarrow> gostring \<Rightarrow> gostring \<Rightarrow> gostring \<Rightarrow> panic + gostring" where
  "normalForm G para i prefix suffix key =
     (if i \<noteq> 0 then
        (let stem = TrimPrefix key prefix;
             stem = TrimSuffix stem suffix
         in andThen (prefixSuffixTag G para 0) (\<lambda>(pr, su, _). Inr (pr @ stem @ su)))
      else Inr key)"

type_synonym analyses = "gostring list \<times> gostring list \<times> gostring list"
type_synonym parse = "gostring list \<times> gostring list \<times> gostring list \<times> float64 list"

text \<open>\<open>float64(probDAWG.Dict.find(word+":"+tag)) / 1e6\<close>\<close>

definition probability :: "dawg \<Rightarrow> gostring \<Rightarrow> gostring \<Rightarrow> float64" where
  "probability pd word tag =
     float64_div (float64_of_int (Dict_find pd (word @ str '':'' @ tag))) 1000000"

definition parseValue ::
  "globals \<Rightarrow> dawg \<Rightarrow> gostring \<Rightarrow> gostring \<Rightarrow> byte list \<Rightarrow> parse \<times> bool \<Rightarrow> panic + parse \<times> bool" where
  "parseValue G pd word key v acc =
     (case acc of ((ws, ns, ts, ps), hasNonzeroProb) \<Rightarrow>
      andThen (BigEndian_Uint16 v) (\<lambda>paraNum.
      andThen (index (paradigms G) (unat paraNum)) (\<lambda>para.
      andThen (sliceFrom v 2) (\<lambda>v2.
      andThen (BigEndian_Uint16 v2) (\<lambda>i.
      andThen (prefixSuffixTag G para (unat i)) (\<lambda>(prefix, suffix, tag).
      andThen (normalForm G para (unat i) prefix suffix key) (\<lambda>nrm.
      let prob = probability pd word tag in
      Inr ((ws @ [key], ns @ [nrm], ts @ [tag], ps @ [prob]),
           hasNonzeroProb \<or> prob > 0))))))))"

fun parseValues ::
  "globals \<Rightarrow> dawg \<Rightarrow> gostring \<Rightarrow> gostring \<Rightarrow> byte list list \<Rightarrow> parse \<times> bool \<Rightarrow> panic + parse \<times> bool" where
  "parseValues G pd word key [] acc = Inr acc"
| "parseValues G pd word key (v # vs) acc =
     andThen (parseValue G pd word key v acc) (parseValues G pd word key vs)"

fun parseItems ::
  "globals \<Rightarrow> dawg \<Rightarrow> gostring \<Rightarrow> (gostring \<times> byte list list) list \<Rightarrow> parse \<times> bool
     \<Rightarrow> panic + parse \<times> bool" where
  "parseItems G pd word [] acc = Inr acc"
| "parseItems G pd word (it # its) acc =
     andThen (parseValues G pd word (fst it) (snd it) acc) (parseItems G pd word its)"

text \<open>
  \<open>sort.Stable\<close> on the \<open>parse\<close> value, whose \<open>Less i j\<close> is \<open>probs[i] > probs[j]\<close> and
  whose \<open>Swap\<close> exchanges the entries of all four slices: the rows are sorted by
  descending probability and rows that \<open>Less\<close> does not separate keep their order.
\<close>

definition rows :: "parse \<Rightarrow> (gostring \<times> gostring \<times> gostring \<times> float64) list" where
  "rows p = (case p of (ws, ns, ts, ps) \<Rightarrow> zip ws (zip ns (zip ts ps)))"

definition columns :: "(gostring \<times> gostring \<times> gostring \<times> float64) list \<Rightarrow> analyses" where
  "columns rs = (map fst rs, map (\<lambda>r. fst (snd r)) rs, map (\<lambda>r. fst (snd (snd r))) rs)"

definition sort_Stable :: "parse \<Rightarrow> analyses" where
  "sort_Stable p = columns (sort_key (\<lambda>r. - snd (snd (snd r))) (rows p))"

text \<open>
  The two nested loops of \<open>Parse\<close> build the candidate set: the four slices in the
  order of the automaton traversal, and the flag \<open>hasNonzeroProb\<close>.
\<close>

definition candidateSet :: "globals \<Rightarrow> dawg \<Rightarrow> dawg \<Rightarrow> gostring \<Rightarrow> panic + parse \<times> bool" where
  "candidateSet G pd wd word =
     parseItems G pd word (similarItems wd word) (([], [], [], []), False)"

definition Parse :: "globals \<Rightarrow> gostring \<Rightarrow> panic + analyses" where
  "Parse G word =
     (case probDAWG G of
        None \<Rightarrow> Inl NotInitialized
      | Some pd \<Rightarrow>
          (case wordsDAWG G of
             None \<Rightarrow> Inl NilDereference
           | Some wd \<Rightarrow>
               andThen (candidateSet G pd wd word) (\<lambda>(p, hasNonzeroProb).
                 Inr (if hasNonzeroProb then sort_Stable p
                      else (fst p, fst (snd p), fst (snd (snd p)))))))"

section \<open>Tables of the extended analyzer\<close>

text \<open>
  The Cyrillic string literals of the source are written by code point: the particles
  are a hyphen (U+002D) followed by Cyrillic letters (U+0430 .. U+044F).
\<close>

definition hyphen :: rune where
  "hyphen = 0x2D"

definition particlesAfterHyphen :: "gostring list" where
  "particlesAfterHyphen = [
   [0x2D, 0x442, 0x43E],
   [0x2D, 0x43A, 0x430],
   [0x2D, 0x442, 0x430, 0x43A, 0x438],
   [0x2D, 0x434, 0x435],
   [0x2D, 0x442, 0x43A, 0x43E],
   [0x2D, 0x442, 0x43A, 0x430],
   [0x2D, 0x441],
   [0x2D, 0x441, 0x442, 0x430]
  ]"

definition knownPrefixes_literal :: "gostring list" where
  "knownPrefixes_literal = [
   [0x430, 0x432, 0x438, 0x430],
   [0x430, 0x432, 0x442, 0x43E],
   [0x430, 0x43A, 0x432, 0x430],
   [0x430, 0x43D, 0x442, 0x438, 0x2D],
   [0x430, 0x43D, 0x442, 0x438],
   [0x430, 0x43D, 0x442, 0x440, 0x43E, 0x43F, 0x43E],
   [0x430, 0x440, 0x442, 0x2D],
   [0x430, 0x440, 0x442],
   [0x430, 0x440, 0x445, 0x438],
   [0x430, 0x441, 0x442, 0x440, 0x43E],
   [0x430, 0x443, 0x434, 0x438, 0x43E],
   [0x430, 0x44D, 0x440, 0x43E],
   [0x431, 0x435, 0x437],
   [0x431, 0x435, 0x441],
   [0x431, 0x438, 0x43E],
   [0x432, 0x435, 0x43B, 0x43E],
   [0x432, 0x437, 0x430, 0x438, 0x43C, 0x43E],
   [0x432, 0x438, 0x434, 0x435, 0x43E],
   [0x432, 0x438, 0x446, 0x435, 0x2D],
   [0x432, 0x43D, 0x435],
   [0x432, 0x43D, 0x443, 0x442, 0x440, 0x438],
   [0x432, 0x43F, 0x435, 0x440, 0x435, 0x434],
   [0x432, 0x43F, 0x435, 0x440, 0x435, 0x434, 0x438],
   [0x433, 0x435, 0x43A, 0x442, 0x43E],
   [0x433, 0x435, 0x43B, 0x438, 0x43E],
   [0x433, 0x435, 0x43E],
   [0x433, 0x435, 0x442, 0x435, 0x440, 0x43E],
   [0x433, 0x438, 0x433, 0x430],
   [0x433, 0x438, 0x433, 0x440, 0x43E],
   [0x433, 0x438, 0x43F, 0x435, 0x440],
   [0x433, 0x438, 0x43F, 0x43E],
   [0x433, 0x43E, 0x43C, 0x43E],
   [0x434, 0x432, 0x443],
   [0x434, 0x432, 0x443, 0x445],
   [0x434, 0x435],
   [0x434, 0x435, 0x437],
   [0x434, 0x435, 0x43A, 0x430],
   [0x434, 0x435, 0x446, 0x438],
   [0x434, 0x438, 0x441],
   [0x434, 0x43E],
   [0x435, 0x432, 0x440, 0x43E],
   [0x437, 0x430],
   [0x437, 0x43E, 0x43E],
   [0x438, 0x43D, 0x442, 0x435, 0x440],
   [0x438, 0x43D, 0x444, 0x440, 0x430],
   [0x43A, 0x432, 0x430, 0x437, 0x438, 0x2D],
   [0x43A, 0x432, 0x430, 0x437, 0x438],
   [0x43A, 0x438, 0x43B, 0x43E],
   [0x43A, 0x438, 0x43D, 0x43E],
   [0x43A, 0x43E, 0x43D, 0x442, 0x440, 0x2D],
   [0x43A, 0x43E, 0x43D, 0x442, 0x440],
   [0x43A, 0x43E, 0x441, 0x43C, 0x43E, 0x2D],
   [0x43A, 0x43E, 0x441, 0x43C, 0x43E],
   [0x43A, 0x440, 0x438, 0x43F, 0x442, 0x43E],
   [0x43B, 0x435, 0x439, 0x431, 0x2D],
   [0x43B, 0x436, 0x435, 0x2D],
   [0x43B, 0x436, 0x435],
   [0x43C, 0x430, 0x43A, 0x440, 0x43E],
   [0x43C, 0x430, 0x43A, 0x441, 0x438, 0x2D],
   [0x43C, 0x430, 0x43A, 0x441, 0x438],
   [0x43C, 0x430, 0x43B, 0x43E],
   [0x43C, 0x435, 0x433, 0x430],
   [0x43C, 0x435, 0x434, 0x438, 0x430, 0x2D],
   [0x43C, 0x435, 0x434, 0x438, 0x430],
   [0x43C, 0x435, 0x436],
   [0x43C, 0x435, 0x442, 0x430, 0x2D],
   [0x43C, 0x435, 0x442, 0x430],
   [0x43C, 0x435, 0x442, 0x435, 0x43E],
   [0x43C, 0x435, 0x442, 0x440, 0x43E],
   [0x43C, 0x438, 0x43A, 0x440, 0x43E],
   [0x43C, 0x438, 0x43B, 0x43B, 0x438],
   [0x43C, 0x438, 0x43D, 0x438, 0x2D],
   [0x43C, 0x438, 0x43D, 0x438],
   [0x43C, 0x43D, 0x43E, 0x433, 0x43E],
   [0x43C, 0x43E, 0x43D, 0x43E],
   [0x43C, 0x43E, 0x442, 0x43E],
   [0x43C, 0x443, 0x43B, 0x44C, 0x442, 0x438],
   [0x43D, 0x430, 0x43D, 0x43E],
   [0x43D, 0x430, 0x440, 0x43A, 0x43E],
   [0x43D, 0x435],
   [0x43D, 0x435, 0x431, 0x435, 0x437],
   [0x43D, 0x435, 0x434, 0x43E],
   [0x43D, 0x435, 0x439, 0x440, 0x43E],
   [0x43D, 0x435, 0x43E],
   [0x43D, 0x438, 0x437, 0x43A, 0x43E],
   [0x43E, 0x431, 0x435, 0x440, 0x2D],
   [0x43E, 0x431, 0x449, 0x435],
   [0x43E, 0x434, 0x43D, 0x43E],
   [0x43E, 0x43A, 0x43E, 0x43B, 0x43E],
   [0x43E, 0x440, 0x442, 0x43E],
   [0x43F, 0x430, 0x43B, 0x435, 0x43E],
   [0x43F, 0x430, 0x43D],
   [0x43F, 0x430, 0x440, 0x430],
   [0x43F, 0x435, 0x43D, 0x442, 0x430],
   [0x43F, 0x435, 0x440, 0x435],
   [0x43F, 0x438, 0x440, 0x43E],
   [0x43F, 0x43E, 0x43B, 0x438],
   [0x43F, 0x43E, 0x43B, 0x443],
   [0x43F, 0x43E, 0x440, 0x43D, 0x43E],
   [0x43F, 0x43E, 0x441, 0x43B, 0x435],
   [0x43F, 0x43E, 0x441, 0x442, 0x2D],
   [0x43F, 0x43E, 0x441, 0x442],
   [0x43F, 0x440, 0x430, 0x2D],
   [0x43F, 0x440, 0x430],
   [0x43F, 0x440, 0x435, 0x434],
   [0x43F, 0x440, 0x435, 0x441, 0x441, 0x2D],
   [0x43F, 0x440, 0x43E, 0x442, 0x438, 0x432, 0x43E, 0x2D],
   [0x43F, 0x440, 0x43E, 0x442, 0x438, 0x432, 0x43E],
   [0x43F, 0x440, 0x43E, 0x442, 0x43E],
   [0x43F, 0x441, 0x435, 0x432, 0x434, 0x43E, 0x2D],
   [0x43F, 0x441, 0x435, 0x432, 0x434, 0x43E],
   [0x440, 0x430, 0x434, 0x438, 0x43E],
   [0x440, 0x430, 0x437, 0x43D, 0x43E],
   [0x440, 0x435],
   [0x440, 0x435, 0x442, 0x440, 0x43E, 0x2D],
   [0x440, 0x435, 0x442, 0x440, 0x43E],
   [0x441, 0x430, 0x43C, 0x43E],
   [0x441, 0x430, 0x43D, 0x442, 0x438],
   [0x441, 0x432, 0x435, 0x440, 0x445, 0x2D],
   [0x441, 0x432, 0x435, 0x440, 0x445],
   [0x441, 0x43F, 0x435, 0x446],
   [0x441, 0x443, 0x431],
   [0x441, 0x443, 0x43F, 0x435, 0x440, 0x2D],
   [0x441, 0x443, 0x43F, 0x435, 0x440],
   [0x441, 0x443, 0x43F, 0x440, 0x430],
   [0x442, 0x435, 0x43B, 0x435],
   [0x442, 0x435, 0x442, 0x440, 0x430],
   [0x442, 0x43E, 0x43F, 0x2D],
   [0x442, 0x440, 0x430, 0x43D, 0x441, 0x2D],
   [0x442, 0x440, 0x430, 0x43D, 0x441],
   [0x443, 0x43B, 0x44C, 0x442, 0x440, 0x430],
   [0x443, 0x43D, 0x442, 0x435, 0x440, 0x2D],
   [0x448, 0x442, 0x430, 0x431, 0x2D],
   [0x44D, 0x43A, 0x437, 0x43E],
   [0x44D, 0x43A, 0x43E],
   [0x44D, 0x43A, 0x43E, 0x43D, 0x43E, 0x43C, 0x2D],
   [0x44D, 0x43A, 0x441, 0x2D],
   [0x44D, 0x43A, 0x441],
   [0x44D, 0x43A, 0x441, 0x442, 0x440, 0x430, 0x2D],
   [0x44D, 0x43A, 0x441, 0x442, 0x440, 0x430],
   [0x44D, 0x43B, 0x435, 0x43A, 0x442, 0x440, 0x43E],
   [0x44D, 0x43D, 0x434, 0x43E],
   [0x44D, 0x43D, 0x435, 0x440, 0x433, 0x43E],
   [0x44D, 0x442, 0x43D, 0x43E]
  ]"

text \<open>
  \<open>init\<close> sorts \<open>knownPrefixes\<close> in place with \<open>sort.Slice\<close>: longer strings (in
  bytes) first, strings of one length in ascending order. The comparison is a strict
  total order on the distinct entries, so the sorted slice is the one an insertion
  sort yields.
\<close>

fun lexLess :: "gostring \<Rightarrow> gostring \<Rightarrow> bool" where
  "lexLess [] [] = False"
| "lexLess [] (b # bs) = True"
| "lexLess (a # as) [] = False"
| "lexLess (a # as) (b # bs) = (a < b \<or> (a = b \<and> lexLess as bs))"

definition prefixLess :: "gostring \<Rightarrow> gostring \<Rightarrow> bool" where
  "prefixLess a b =
     (let d = int (len_bytes a) - int (len_bytes b)
      in if d \<noteq> 0 then d > 0 else lexLess a b)"

fun insertBy :: "('a \<Rightarrow> 'a \<Rightarrow> bool) \<Rightarrow> 'a \<Rightarrow> 'a list \<Rightarrow> 'a list" where
  "insertBy lt x [] = [x]"
| "insertBy lt x (y # ys) = (if lt x y then x # y # ys else y # insertBy lt x ys)"

definition sort_Slice :: "('a \<Rightarrow> 'a \<Rightarrow> bool) \<Rightarrow> 'a list \<Rightarrow> 'a list" where
  "sort_Slice lt xs = foldr (insertBy lt) xs []"

definition knownPrefixes :: "gostring list" where
  "knownPrefixes = sort_Slice prefixLess knownPrefixes_literal"

definition nonproductiveGrammemes :: "gostring list" where
  "nonproductiveGrammemes =
     map str [''NUMR'', ''NPRO'', ''PRED'', ''PREP'', ''CONJ'', ''PRCL'', ''INTJ'', ''Apro'']"

definition productive :: "gostring \<Rightarrow> bool" where
  "productive tag = list_all (\<lambda>g. \<not> Contains tag g) nonproductiveGrammemes"

definition wordSplits :: "gostring \<Rightarrow> nat \<Rightarrow> nat \<Rightarrow> (gostring \<times> gostring) list" where
  "wordSplits s minRemainder maxPrefixLen =
     (let n = min (int maxPrefixLen) (int (length s) - int minRemainder)
      in if n \<le> 0 then [] else map (\<lambda>i. (take i s, drop i s)) [1 ..< nat n + 1])"

text \<open>
  \<open>split5\<close> cuts one rune after the other off the end, at most five times, and stops
  when nothing would be left in front; \<open>n\<close> counts the runes that remain in front.
\<close>

fun split5_loop :: "nat \<Rightarrow> gostring \<Rightarrow> nat \<Rightarrow> (gostring \<times> gostring) list" where
  "split5_loop 0 s n = []"
| "split5_loop (Suc k) s n =
     (let n' = n - (if n = 0 then 0 else 1)
      in if n' = 0 then [] else (take n' s, drop n' s) # split5_loop k s n')"

definition split5 :: "gostring \<Rightarrow> (gostring \<times> gostring) list" where
  "split5 s = split5_loop 5 s (length s)"

definition featureGrammemes :: "gostring list" where
  "featureGrammemes = map str
     [''NOUN'', ''ADJF'', ''ADJS'', ''COMP'', ''VERB'', ''INFN'', ''PRTF'', ''PRTS'', ''GRND'',
      ''NUMR'', ''ADVB'', ''NPRO'', ''PRED'', ''PREP'', ''CONJ'', ''PRCL'', ''INTJ'',
      ''sing'', ''plur'',
      ''nomn'', ''gent'', ''datv'', ''accs'', ''ablt'', ''loct'', ''voct'', ''gen2'', ''acc2'',
      ''loc2'',
      ''1per'', ''2per'', ''3per'',
      ''pres'', ''past'', ''futr'']"

definition emptyUnlessFeature :: "gostring \<Rightarrow> gostring" where
  "emptyUnlessFeature s =
     (if s = str ''loc1'' then str ''loct''
      else if s = str ''gen1'' then str ''gent''
      else if s \<in> set featureGrammemes then s
      else [])"

text \<open>
  \<open>rFeature.ReplaceAllStringFunc\<close> for the pattern \<open>[^ ,]+\<close>: every maximal run of
  characters other than space and comma is replaced by the function's value on it;
  spaces and commas stay. \<open>cur\<close> is the run read so far.
\<close>

definition separator :: "rune \<Rightarrow> bool" where
  "separator c = (c = of_char CHR '' '' \<or> c = of_char CHR '','')"

fun ReplaceAllStringFunc :: "(gostring \<Rightarrow> gostring) \<Rightarrow> gostring \<Rightarrow> gostring \<Rightarrow> gostring" where
  "ReplaceAllStringFunc repl cur [] = (if cur = [] then [] else repl cur)"
| "ReplaceAllStringFunc repl cur (c # cs) =
     (if separator c
      then (if cur = [] then [] else repl cur) @ c # ReplaceAllStringFunc repl [] cs
      else ReplaceAllStringFunc repl (cur @ [c]) cs)"

definition similarityFeatures :: "gostring \<Rightarrow> gostring" where
  "similarityFeatures tag = ReplaceAllStringFunc emptyUnlessFeature [] tag"

section \<open>The strategies of the extended analyzer\<close>

text \<open>
  Each strategy of \<open>XParse\<close> is a loop of the source; the recursive call of \<open>XParse\<close>
  is the argument \<open>rec\<close>. The accumulator \<open>(words, norms, tags)\<close> is the triple of
  result slices the source appends to.
\<close>

text \<open>\<open>for i := range words { words[i] += suffix; norms[i] += suffix }\<close>\<close>

definition appendSuffix ::
  "gostring list \<Rightarrow> gostring list \<Rightarrow> gostring \<Rightarrow> panic + gostring list \<times> gostring list" where
  "appendSuffix words norms suffix =
     (if length norms < length words then Inl IndexOutOfRange
      else Inr (map (\<lambda>w. w @ suffix) words,
                map (\<lambda>n. n @ suffix) (take (length words) norms) @ drop (length words) norms))"

fun particleStrip ::
  "(gostring \<Rightarrow> panic + analyses) \<Rightarrow> gostring \<Rightarrow> gostring list \<Rightarrow> panic + analyses option" where
  "particleStrip rec word [] = Inr None"
| "particleStrip rec word (suffix # rest) =
     (if \<not> HasSuffix word suffix then particleStrip rec word rest
      else andThen (rec (TrimSuffix word suffix)) (\<lambda>(words, norms, tags).
             if length words > 0
             then andThen (appendSuffix words norms suffix) (\<lambda>(words', norms').
                    Inr (Some (words', norms', tags)))
             else particleStrip rec word rest))"

definition po_hyphen :: gostring where
  "po_hyphen = [0x43F, 0x43E, 0x2D]"

fun adverbLoop :: "gostring list \<Rightarrow> gostring list \<Rightarrow> nat \<Rightarrow> panic + analyses option" where
  "adverbLoop words [] i = Inr None"
| "adverbLoop words (tag # rest) i =
     (if \<not> HasPrefix tag (str ''ADJF'') \<or> \<not> Contains tag (str ''sing,datv'')
      then adverbLoop words rest (Suc i)
      else andThen (index words i) (\<lambda>wi.
             let w = po_hyphen @ wi in Inr (Some ([w], [w], [str ''ADVB'']))))"

definition hyphenAdverb ::
  "(gostring \<Rightarrow> panic + analyses) \<Rightarrow> gostring \<Rightarrow> panic + analyses option" where
  "hyphenAdverb rec word =
     andThen (rec (drop 3 word)) (\<lambda>(words, _, tags). adverbLoop words tags 0)"

text \<open>
  The loop shared by the known-prefix and the unknown-prefix strategy:
  \<open>for i, tag := range ts\<close>, skipping unproductive tags and appending
  \<open>prefix+ws[i]\<close>, \<open>prefix+ns[i]\<close>, \<open>ts[i]\<close>.
\<close>

fun appendProductive ::
  "gostring \<Rightarrow> gostring list \<Rightarrow> gostring list \<Rightarrow> gostring list \<Rightarrow> nat \<Rightarrow> analyses
     \<Rightarrow> panic + analyses" where
  "appendProductive prefix ws ns [] i acc = Inr acc"
| "appendProductive prefix ws ns (tag # ts) i acc =
     (if \<not> productive tag then appendProductive prefix ws ns ts (Suc i) acc
      else andThen (index ws i) (\<lambda>w.
           andThen (index ns i) (\<lambda>n.
             appendProductive prefix ws ns ts (Suc i)
               (fst acc @ [prefix @ w], fst (snd acc) @ [prefix @ n], snd (snd acc) @ [tag]))))"

fun knownPrefixLoop ::
  "(gostring \<Rightarrow> panic + analyses) \<Rightarrow> gostring \<Rightarrow> gostring list \<Rightarrow> analyses \<Rightarrow> panic + analyses" where
  "knownPrefixLoop rec word [] acc = Inr acc"
| "knownPrefixLoop rec word (prefix # rest) acc =
     (if \<not> HasPrefix word prefix then knownPrefixLoop rec word rest acc
      else let unprefixed = TrimPrefix word prefix in
        if length unprefixed < 3 then knownPrefixLoop rec word rest acc
        else andThen (rec unprefixed) (\<lambda>(ws, ns, ts).
             andThen (appendProductive prefix ws ns ts 0 acc) (\<lambda>acc'.
               knownPrefixLoop rec word rest acc')))"

text \<open>The hyphen-compound strategy: agreement compounds first, then the fixed left part.\<close>

fun compoundInner ::
  "gostring list \<times> gostring list \<Rightarrow> nat \<Rightarrow> gostring \<Rightarrow> gostring
     \<Rightarrow> gostring list \<times> gostring list \<Rightarrow> gostring list \<Rightarrow> nat \<Rightarrow> analyses
     \<Rightarrow> panic + analyses" where
  "compoundInner l i tag leftFeat r [] j acc = Inr acc"
| "compoundInner l i tag leftFeat r (rightFeature # rest) j acc =
     (if leftFeat \<noteq> rightFeature then compoundInner l i tag leftFeat r rest (Suc j) acc
      else andThen (index (fst l) i) (\<lambda>lword.
           andThen (index (fst r) j) (\<lambda>rword.
           andThen (index (snd l) i) (\<lambda>lnorm.
           andThen (index (snd r) j) (\<lambda>rnorm.
             compoundInner l i tag leftFeat r rest (Suc j)
               (fst acc @ [lword @ [hyphen] @ rword],
                fst (snd acc) @ [lnorm @ [hyphen] @ rnorm],
                snd (snd acc) @ [tag]))))))"

fun compoundOuter ::
  "gostring list \<times> gostring list \<Rightarrow> gostring list \<Rightarrow> nat
     \<Rightarrow> gostring list \<times> gostring list \<Rightarrow> gostring list \<Rightarrow> analyses
     \<Rightarrow> panic + analyses" where
  "compoundOuter l [] i r rightFeatures acc = Inr acc"
| "compoundOuter l (tag # ltags) i r rightFeatures acc =
     andThen (compoundInner l i tag (similarityFeatures tag) r rightFeatures 0 acc)
       (compoundOuter l ltags (Suc i) r rightFeatures)"

fun fixedLeft ::
  "gostring \<Rightarrow> gostring list \<times> gostring list \<Rightarrow> gostring list \<Rightarrow> nat \<Rightarrow> analyses
     \<Rightarrow> panic + analyses" where
  "fixedLeft left r [] i acc = Inr acc"
| "fixedLeft left r (tag # rtags) i acc =
     andThen (index (fst r) i) (\<lambda>rword.
     andThen (index (snd r) i) (\<lambda>rnorm.
       fixedLeft left r rtags (Suc i)
         (fst acc @ [left @ [hyphen] @ rword],
          fst (snd acc) @ [left @ [hyphen] @ rnorm],
          snd (snd acc) @ [tag])))"

text \<open>\<open>strings.SplitN(word, "-", 2)\<close> on a word that contains a hyphen.\<close>

definition leftPart :: "gostring \<Rightarrow> gostring" where
  "leftPart word = takeWhile (\<lambda>c. c \<noteq> hyphen) word"

definition rightPart :: "gostring \<Rightarrow> gostring" where
  "rightPart word = drop 1 (dropWhile (\<lambda>c. c \<noteq> hyphen) word)"

definition hyphenated ::
  "(gostring \<Rightarrow> panic + analyses) \<Rightarrow> gostring \<Rightarrow> analyses \<Rightarrow> panic + analyses" where
  "hyphenated rec word acc =
     (let left = leftPart word; right = rightPart word in
      andThen (rec left) (\<lambda>(lwords, lnorms, ltags).
      andThen (rec right) (\<lambda>(rwords, rnorms, rtags).
      let rightFeatures = map similarityFeatures rtags in
      andThen (compoundOuter (lwords, lnorms) ltags 0 (rwords, rnorms) rightFeatures acc) (\<lambda>acc'.
        fixedLeft left (rwords, rnorms) rtags 0 acc'))))"

text \<open>The unknown-prefix strategy calls the dictionary analyzer, not the cascade.\<close>

fun unknownPrefixLoop ::
  "globals \<Rightarrow> (gostring \<times> gostring) list \<Rightarrow> analyses \<Rightarrow> panic + analyses" where
  "unknownPrefixLoop G [] acc = Inr acc"
| "unknownPrefixLoop G (split # rest) acc =
     andThen (Parse G (snd split)) (\<lambda>(ws, ns, ts).
     andThen (appendProductive (fst split) ws ns ts 0 acc) (\<lambda>acc'.
       unknownPrefixLoop G rest acc'))"

text \<open>
  The suffix prediction. \<open>seen\<close> is the scan \<open>for i, t := range tags\<close> for an analysis
  collected before; a hit leaves the loop over the values of the current item
  (\<open>continue sloop\<close>).
\<close>

fun seen ::
  "gostring list \<Rightarrow> gostring list \<Rightarrow> gostring list \<Rightarrow> nat \<Rightarrow> gostring \<Rightarrow> gostring \<Rightarrow> gostring
     \<Rightarrow> panic + bool" where
  "seen words norms [] i word nrm tag = Inr False"
| "seen words norms (t # ts) i word nrm tag =
     (if t = tag
      then andThen (index words i) (\<lambda>w.
             if w = word
             then andThen (index norms i) (\<lambda>n.
                    if n = nrm then Inr True else seen words norms ts (Suc i) word nrm tag)
             else seen words norms ts (Suc i) word nrm tag)
      else seen words norms ts (Suc i) word nrm tag)"

fun predictValues ::
  "globals \<Rightarrow> gostring \<Rightarrow> gostring \<Rightarrow> byte list list \<Rightarrow> analyses \<times> nat
     \<Rightarrow> panic + analyses \<times> nat" where
  "predictValues G wordStart key [] st = Inr st"
| "predictValues G wordStart key (v # vs) st =
     andThen (BigEndian_Uint16 v) (\<lambda>count.
     andThen (sliceFrom v 2) (\<lambda>v2.
     andThen (BigEndian_Uint16 v2) (\<lambda>paraNum.
     andThen (index (paradigms G) (unat paraNum)) (\<lambda>para.
     andThen (sliceFrom v 4) (\<lambda>v4.
     andThen (BigEndian_Uint16 v4) (\<lambda>i.
     andThen (prefixSuffixTag G para (unat i)) (\<lambda>(prefix, suffix, tag).
       if \<not> productive tag then predictValues G wordStart key vs st
       else
         let totalCount = snd st + unat count;
             word = wordStart @ key
         in andThen (normalForm G para (unat i) prefix suffix word) (\<lambda>nrm.
            andThen (seen (fst (fst st)) (fst (snd (fst st))) (snd (snd (fst st))) 0 word nrm tag)
              (\<lambda>dup.
                 if dup then Inr (fst st, totalCount)
                 else predictValues G wordStart key vs
                        ((fst (fst st) @ [word], fst (snd (fst st)) @ [nrm],
                          snd (snd (fst st)) @ [tag]), totalCount))))))))))"

fun predictItems ::
  "globals \<Rightarrow> gostring \<Rightarrow> (gostring \<times> byte list list) list \<Rightarrow> analyses \<times> nat
     \<Rightarrow> panic + analyses \<times> nat" where
  "predictItems G wordStart [] st = Inr st"
| "predictItems G wordStart (it # its) st =
     andThen (predictValues G wordStart (fst it) (snd it) st) (predictItems G wordStart its)"

text \<open>
  \<open>for i := len(splits) - 1; i >= 0; i--\<close>: the argument is the list of splits in
  the order the loop visits them, longest ending first.
\<close>

fun predictSplits ::
  "globals \<Rightarrow> dawg \<Rightarrow> (gostring \<times> gostring) list \<Rightarrow> analyses \<times> nat \<Rightarrow> panic + analyses \<times> nat" where
  "predictSplits G d [] st = Inr st"
| "predictSplits G d (sp # sps) st =
     andThen (predictItems G (fst sp) (similarItems d (snd sp)) st) (\<lambda>st'.
       if snd st' > 1 then Inr st' else predictSplits G d sps st')"

fun predictPrefixes ::
  "globals \<Rightarrow> gostring \<Rightarrow> (gostring \<times> gostring) list \<Rightarrow> gostring list \<Rightarrow> nat \<Rightarrow> analyses
     \<Rightarrow> panic + analyses" where
  "predictPrefixes G word splits [] k acc = Inr acc"
| "predictPrefixes G word splits (prefix # rest) k acc =
     (if \<not> HasPrefix word prefix then predictPrefixes G word splits rest (Suc k) acc
      else andThen (index (predictionDAWGs G) k) (\<lambda>d.
           andThen (predictSplits G d (rev splits) (acc, 0)) (\<lambda>st'.
             predictPrefixes G word splits rest (Suc k) (fst st'))))"

text \<open>
  The end of \<open>XParse\<close>, reached when none of the strategies above has returned: the
  unknown-prefix guess and the suffix prediction, their results merged.
\<close>

definition guessAndPredict :: "globals \<Rightarrow> gostring \<Rightarrow> analyses \<Rightarrow> panic + analyses" where
  "guessAndPredict G word acc =
     andThen (unknownPrefixLoop G (wordSplits word 3 5) acc) (\<lambda>acc'.
       if length word \<ge> 4
       then predictPrefixes G word (split5 word) (prefixes G) 0 acc'
       else Inr acc')"

section \<open>The extended analyzer\<close>

text \<open>Facts about the string operations that the recursion of \<open>XParse\<close> rests on.\<close>

lemma HasPrefix_iff: "HasPrefix s p \<longleftrightarrow> (\<exists>t. s = p @ t)"
  by (induction s p rule: HasPrefix.induct) auto

lemma HasSuffix_iff: "HasSuffix s p \<longleftrightarrow> (\<exists>t. s = t @ p)"
proof -
  have "HasSuffix s p \<longleftrightarrow> (\<exists>t. rev s = rev p @ t)"
    by (simp add: HasSuffix_def HasPrefix_iff)
  also have "\<dots> \<longleftrightarrow> (\<exists>t. s = t @ p)"
  proof
    assume "\<exists>t. rev s = rev p @ t"
    then obtain t where "rev s = rev p @ t" ..
    then have "rev (rev s) = rev (rev p @ t)" by simp
    then have "s = rev t @ p" by simp
    then show "\<exists>t. s = t @ p" ..
  next
    assume "\<exists>t. s = t @ p"
    then obtain t where "s = t @ p" ..
    then have "rev s = rev p @ rev t" by simp
    then show "\<exists>t. rev s = rev p @ t" ..
  qed
  finally show ?thesis .
qed

lemma TrimPrefix_append [simp]: "TrimPrefix (p @ t) p = t"
  by (simp add: TrimPrefix_def HasPrefix_iff)

lemma TrimSuffix_append [simp]: "TrimSuffix (t @ p) p = t"
  by (simp add: TrimSuffix_def HasSuffix_iff)

lemma length_TrimPrefix: "HasPrefix s p \<Longrightarrow> p \<noteq> [] \<Longrightarrow> length (TrimPrefix s p) < length s"
  by (auto simp: HasPrefix_iff)

lemma length_TrimSuffix: "HasSuffix s p \<Longrightarrow> p \<noteq> [] \<Longrightarrow> length (TrimSuffix s p) < length s"
  by (auto simp: HasSuffix_iff)

lemma particles_nonempty: "s \<in> set particlesAfterHyphen \<Longrightarrow> s \<noteq> []"
  by (auto simp: particlesAfterHyphen_def)

lemma set_insertBy: "set (insertBy lt x ys) = insert x (set ys)"
  by (induction ys) auto

lemma set_sort_Slice: "set (sort_Slice lt xs) = set xs"
  by (induction xs) (simp_all add: sort_Slice_def set_insertBy)

lemma literal_nonempty: "list_all (\<lambda>p. p \<noteq> []) knownPrefixes_literal"
  by (simp add: knownPrefixes_literal_def)

lemma knownPrefixes_nonempty: "p \<in> set knownPrefixes \<Longrightarrow> p \<noteq> []"
  using literal_nonempty by (simp add: knownPrefixes_def set_sort_Slice list_all_iff)

lemma length_leftPart: "hyphen \<in> set word \<Longrightarrow> length (leftPart word) < length word"
  unfolding leftPart_def
  by (induction word) auto

lemma length_rightPart: "hyphen \<in> set word \<Longrightarrow> length (rightPart word) < length word"
  unfolding rightPart_def
  by (induction word) (auto simp: less_Suc_eq_le intro: le_trans [OF length_dropWhile_le])

lemma andThen_cong [fundef_cong]:
  "m = m' \<Longrightarrow> (\<And>x. m' = Inr x \<Longrightarrow> f x = f' x) \<Longrightarrow> andThen m f = andThen m' f'"
  by (cases m') (simp_all add: andThen_def)

lemma particleStrip_ext:
  "(\<And>s. s \<in> set ps \<Longrightarrow> HasSuffix word s \<Longrightarrow> rec (TrimSuffix word s) = rec' (TrimSuffix word s))
   \<Longrightarrow> particleStrip rec word ps = particleStrip rec' word ps"
proof (induction ps)
  case Nil
  then show ?case by simp
next
  case (Cons p ps)
  have tl: "particleStrip rec word ps = particleStrip rec' word ps"
    using Cons by simp
  have hd: "HasSuffix word p \<Longrightarrow> rec (TrimSuffix word p) = rec' (TrimSuffix word p)"
    using Cons.prems by simp
  show ?case
    using tl hd by (simp cong: if_cong)
qed

lemma particleStrip_cong [fundef_cong]:
  "word = word' \<Longrightarrow> ps = ps' \<Longrightarrow>
   (\<And>s. s \<in> set ps' \<Longrightarrow> HasSuffix word' s \<Longrightarrow> rec (TrimSuffix word' s) = rec' (TrimSuffix word' s))
   \<Longrightarrow> particleStrip rec word ps = particleStrip rec' word' ps'"
  using particleStrip_ext [of ps' word' rec rec'] by simp

lemma hyphenAdverb_cong [fundef_cong]:
  "word = word' \<Longrightarrow> rec (drop 3 word') = rec' (drop 3 word')
   \<Longrightarrow> hyphenAdverb rec word = hyphenAdverb rec' word'"
  by (simp add: hyphenAdverb_def)

lemma knownPrefixLoop_ext:
  "(\<And>p. p \<in> set ps \<Longrightarrow> HasPrefix word p \<Longrightarrow> rec (TrimPrefix word p) = rec' (TrimPrefix word p))
   \<Longrightarrow> knownPrefixLoop rec word ps acc = knownPrefixLoop rec' word ps acc"
proof (induction ps arbitrary: acc)
  case Nil
  then show ?case by simp
next
  case (Cons p ps)
  have "knownPrefixLoop rec word ps a = knownPrefixLoop rec' word ps a" for a
    using Cons by simp
  then have tl: "knownPrefixLoop rec word ps = knownPrefixLoop rec' word ps"
    by (rule ext)
  have hd: "HasPrefix word p \<Longrightarrow> rec (TrimPrefix word p) = rec' (TrimPrefix word p)"
    using Cons.prems by simp
  show ?case
    using tl hd by (simp add: Let_def cong: if_cong)
qed

lemma knownPrefixLoop_cong [fundef_cong]:
  "word = word' \<Longrightarrow> ps = ps' \<Longrightarrow> acc = acc' \<Longrightarrow>
   (\<And>p. p \<in> set ps' \<Longrightarrow> HasPrefix word' p \<Longrightarrow> rec (TrimPrefix word' p) = rec' (TrimPrefix word' p))
   \<Longrightarrow> knownPrefixLoop rec word ps acc = knownPrefixLoop rec' word' ps' acc'"
  using knownPrefixLoop_ext [of ps' word' rec rec' acc'] by simp

lemma hyphenated_cong [fundef_cong]:
  "word = word' \<Longrightarrow> acc = acc' \<Longrightarrow>
   rec (leftPart word') = rec' (leftPart word') \<Longrightarrow>
   rec (rightPart word') = rec' (rightPart word')
   \<Longrightarrow> hyphenated rec word acc = hyphenated rec' word' acc'"
  by (simp add: hyphenated_def)

function XParse :: "(rune \<Rightarrow> rune) \<Rightarrow> globals \<Rightarrow> gostring \<Rightarrow> panic + analyses" where
  "XParse L G word0 =
     (let word = ToLower L word0 in
      andThen (Parse G word) (\<lambda>(words, norms, tags).
      if length words > 0 then Inr (words, norms, tags)
      else
        let containsHyphen = (hyphen \<in> set word) in
        andThen (if containsHyphen
                 then particleStrip (\<lambda>w. XParse L G w) word particlesAfterHyphen
                 else Inr None) (\<lambda>stripped.
        case stripped of
          Some result \<Rightarrow> Inr result
        | None \<Rightarrow>
            let nRunes = length word in
            andThen (if nRunes \<ge> 5 \<and> HasPrefix word po_hyphen
                     then hyphenAdverb (\<lambda>w. XParse L G w) word
                     else Inr None) (\<lambda>adverb.
            case adverb of
              Some result \<Rightarrow> Inr result
            | None \<Rightarrow>
                andThen (knownPrefixLoop (\<lambda>w. XParse L G w) word knownPrefixes
                           (words, norms, tags)) (\<lambda>acc.
                if length (fst acc) > 0 then Inr acc
                else if containsHyphen \<and> count_list word hyphen = 1
                        \<and> \<not> HasPrefix word [hyphen] \<and> \<not> HasSuffix word [hyphen]
                then andThen (hyphenated (\<lambda>w. XParse L G w) word acc) (\<lambda>acc'.
                       if length (fst acc') > 0 then Inr acc'
                       else guessAndPredict G word acc')
                else guessAndPredict G word acc)))))"
  by pat_completeness auto
termination XParse
proof (relation "measure (\<lambda>(L, G, w). length w)", goal_cases)
  case 1
  show ?case by simp
next
  case (2 L G word0 word)
  then show ?case
    using length_TrimSuffix [of "ToLower L word0"] particles_nonempty
    by (simp add: ToLower_def)
next
  case (3 L G word0 word)
  then have "5 \<le> length word0" and "length word = length word0"
    by (simp_all add: ToLower_def)
  then show ?case by simp
next
  case (4 L G word0 word)
  then show ?case
    using length_TrimPrefix [of "ToLower L word0"] knownPrefixes_nonempty
    by (simp add: ToLower_def)
next
  case (5 L G word0 word)
  then show ?case
    using length_leftPart [of "ToLower L word0"] by (simp add: ToLower_def)
next
  case (6 L G word0 word)
  then show ?case
    using length_rightPart [of "ToLower L word0"] by (simp add: ToLower_def)
qed

section \<open>Initialization\<close>

text \<open>
  What \<open>Init\<close> and \<open>InitWith\<close> read from outside the process is the \<open>world\<close>:
  \<open>os.Open\<close> with the content of the file, the JSON decoder, the constructor
  \<open>newDAWG\<close> of the automaton type (which yields an automaton or an error) and the
  output of the python command that \<open>dataPath\<close> runs. A path is a string;
  \<open>filepath.Join\<close> puts a separator between directory and name. Of an error value
  the code asks only whether it is the sentinel \<open>ErrAlreadyInitialized\<close> and whether
  \<open>os.IsNotExist\<close> holds of it.
\<close>

datatype error = ErrAlreadyInitialized | ErrNotExist | ErrOther

record world =
  os_Open :: "string \<Rightarrow> error + byte list"
  json_Decode :: "byte list \<Rightarrow> error + gostring list"
  newDAWG :: "string \<Rightarrow> error + dawg"
  python_Run :: "error + string"

definition filepath_Join :: "string \<Rightarrow> string \<Rightarrow> string" where
  "filepath_Join dir name = dir @ ''/'' @ name"

definition TrimRight :: "string \<Rightarrow> string \<Rightarrow> string" where
  "TrimRight s cutset = rev (dropWhile (\<lambda>c. c \<in> set cutset) (rev s))"

definition dataPath :: "world \<Rightarrow> error + string" where
  "dataPath W =
     (case python_Run W of
        Inl err \<Rightarrow> Inl err
      | Inr out \<Rightarrow> Inr (filepath_Join (TrimRight out [CHR 0x0D, CHR 0x0A]) ''data''))"

definition loadStringArray :: "world \<Rightarrow> string \<Rightarrow> gostring list \<times> error option" where
  "loadStringArray W fn =
     (case os_Open W fn of
        Inl err \<Rightarrow> ([], Some err)
      | Inr f \<Rightarrow>
          (case json_Decode W f of
             Inl err \<Rightarrow> ([], Some err)
           | Inr ss \<Rightarrow> (ss, None)))"

text \<open>\<open>binary.Read\<close> of one little-endian \<open>uint16\<close>, and of a slice of \<open>n\<close> of them.\<close>

definition readUint16 :: "byte list \<Rightarrow> error + 16 word \<times> byte list" where
  "readUint16 bs =
     (case bs of
        b0 # b1 # rest \<Rightarrow> Inr (or (ucast b0) (push_bit 8 (ucast b1)), rest)
      | _ \<Rightarrow> Inl ErrOther)"

fun decodeUint16s :: "byte list \<Rightarrow> 16 word list" where
  "decodeUint16s (b0 # b1 # rest) = or (ucast b0) (push_bit 8 (ucast b1)) # decodeUint16s rest"
| "decodeUint16s _ = []"

definition readUint16s :: "nat \<Rightarrow> byte list \<Rightarrow> error + 16 word list \<times> byte list" where
  "readUint16s n bs =
     (if length bs < 2 * n then Inl ErrOther
      else Inr (decodeUint16s (take (2 * n) bs), drop (2 * n) bs))"

text \<open>
  The loop of \<open>loadParadigms\<close>; it appends to the global \<open>paradigms\<close> as it reads, so
  what it has read stays there when a later read fails.
\<close>

fun loadParadigms_loop ::
  "nat \<Rightarrow> byte list \<Rightarrow> 16 word list list \<Rightarrow> error option \<times> 16 word list list" where
  "loadParadigms_loop 0 bs ps = (None, ps)"
| "loadParadigms_loop (Suc n) bs ps =
     (case readUint16 bs of
        Inl err \<Rightarrow> (Some err, ps)
      | Inr (paraLen, bs') \<Rightarrow>
          (case readUint16s (unat paraLen) bs' of
             Inl err \<Rightarrow> (Some err, ps)
           | Inr (para, bs'') \<Rightarrow> loadParadigms_loop n bs'' (ps @ [para])))"

definition loadParadigms :: "world \<Rightarrow> string \<Rightarrow> globals \<Rightarrow> error option \<times> globals" where
  "loadParadigms W fn G =
     (case os_Open W fn of
        Inl err \<Rightarrow> (Some err, G)
      | Inr f \<Rightarrow>
          (case readUint16 f of
             Inl err \<Rightarrow> (Some err, G)
           | Inr (paraCount, bs) \<Rightarrow>
               (case loadParadigms_loop (unat paraCount) bs [] of
                  (err, ps) \<Rightarrow> (err, G\<lparr>paradigms := ps\<rparr>))))"

fun Itoa :: "nat \<Rightarrow> string" where
  "Itoa n = (if n < 10 then [char_of (48 + n)] else Itoa (n div 10) @ [char_of (48 + n mod 10)])"

definition predictionPath :: "string \<Rightarrow> nat \<Rightarrow> string" where
  "predictionPath dir i = filepath_Join dir (''prediction-suffixes-'' @ Itoa i @ ''.dawg'')"

fun loadPredictions ::
  "world \<Rightarrow> string \<Rightarrow> nat list \<Rightarrow> dawg list \<Rightarrow> error option \<times> dawg list" where
  "loadPredictions W dir [] ds = (None, ds)"
| "loadPredictions W dir (i # rest) ds =
     (case newDAWG W (predictionPath dir i) of
        Inl err \<Rightarrow> (Some err, ds)
      | Inr d \<Rightarrow> loadPredictions W dir rest (ds @ [d]))"

definition defaultPrefixes :: "gostring list" where
  "defaultPrefixes = [[], [0x43F, 0x43E], [0x43D, 0x430, 0x438]]"

text \<open>
  \<open>InitWith\<close> assigns each global as soon as its resource is read; \<open>G1\<close>, \<open>G2\<close>, ...
  are the globals after each assignment.
\<close>

definition InitWith :: "world \<Rightarrow> string \<Rightarrow> globals \<Rightarrow> error option \<times> globals" where
  "InitWith W dir G =
     (if probDAWG G \<noteq> None then (Some ErrAlreadyInitialized, G)
      else
        let prefixesPath = filepath_Join dir ''paradigm-prefixes.json'';
            suffixesPath = filepath_Join dir ''suffixes.json'';
            tagsPath = filepath_Join dir ''gramtab-opencorpora-int.json'';
            paradigmsPath = filepath_Join dir ''paradigms.array'';
            dawgPath = filepath_Join dir ''words.dawg'';
            probPath = filepath_Join dir ''p_t_given_w.intdawg'';
            (ts, err1) = loadStringArray W tagsPath;
            G1 = G\<lparr>tags := ts\<rparr>
        in if err1 \<noteq> None then (err1, G1)
        else
          let (ps, err2) = loadStringArray W prefixesPath;
              G2 = G1\<lparr>prefixes := ps\<rparr>
          in if err2 \<noteq> None \<and> err2 \<noteq> Some ErrNotExist then (err2, G2)
          else
            let G2 = (if err2 \<noteq> None then G2\<lparr>prefixes := defaultPrefixes\<rparr> else G2);
                (ss, err3) = loadStringArray W suffixesPath;
                G3 = G2\<lparr>suffixes := ss\<rparr>
            in if err3 \<noteq> None then (err3, G3)
            else
              (case loadParadigms W paradigmsPath G3 of
                 (Some err, G4) \<Rightarrow> (Some err, G4)
               | (None, G4) \<Rightarrow>
                   (case newDAWG W dawgPath of
                      Inl err \<Rightarrow> (Some err, G4\<lparr>wordsDAWG := None\<rparr>)
                    | Inr wd \<Rightarrow>
                        (case newDAWG W probPath of
                           Inl err \<Rightarrow> (Some err, G4\<lparr>wordsDAWG := Some wd, probDAWG := None\<rparr>)
                         | Inr pd \<Rightarrow>
                             (case loadPredictions W dir [0 ..< length (prefixes G4)] [] of
                                (err, ds) \<Rightarrow>
                                  (err, G4\<lparr>wordsDAWG := Some wd, probDAWG := Some pd,
                                            predictionDAWGs := ds\<rparr>))))))"

definition Init :: "world \<Rightarrow> globals \<Rightarrow> error option \<times> globals" where
  "Init W G =
     (if probDAWG G \<noteq> None then (Some ErrAlreadyInitialized, G)
      else
        (case dataPath W of
           Inl err \<Rightarrow> (Some err, G)
         | Inr dir \<Rightarrow> InitWith W dir G))"

text \<open>The package-level variables before any initialization: all \<open>nil\<close>.\<close>

definition initialGlobals :: globals where
  "initialGlobals = \<lparr> prefixes = [], suffixes = [], tags = [], paradigms = [],
     wordsDAWG = None, probDAWG = None, predictionDAWGs = [] \<rparr>"

section \<open>A small dictionary for concrete evaluations\<close>

text \<open>
  One paradigm with three forms (suffixes "", "s", "s"), one paradigm with a single
  form; the words "cat", "cats" (two payloads) and "cat" followed by the particle
  U+002D U+0442 U+043E; probabilities for the two readings of "cats".
\<close>

definition catTo :: gostring where
  "catTo = str ''cat'' @ [0x2D, 0x442, 0x43E]"

definition demoWords :: dawg where
  "demoWords = \<lparr>
     similarItems = (\<lambda>q.
       if q = str ''cat'' then [(str ''cat'', [[0, 0, 0, 0]])]
       else if q = str ''cats'' then [(str ''cats'', [[0, 0, 0, 1], [0, 0, 0, 2]])]
       else if q = catTo then [(catTo, [[0, 1, 0, 0]])]
       else []),
     Dict_find = (\<lambda>k. 0) \<rparr>"

definition demoProb :: dawg where
  "demoProb = \<lparr>
     similarItems = (\<lambda>q. []),
     Dict_find = (\<lambda>k.
       if k = str ''cats:NOUN,plur'' then 250000
       else if k = str ''cats:VERB,sing,3per'' then 750000
       else 0) \<rparr>"


definition demoPrediction :: dawg where
  "demoPrediction = \<lparr>
     similarItems = (\<lambda>q. if q = str ''at'' then [(str ''at'', [[0, 1, 0, 0, 0, 0]])] else []),
     Dict_find = (\<lambda>k. 0) \<rparr>"

definition demoG :: globals where
  "demoG = \<lparr>
     prefixes = [[]],
     suffixes = [[], str ''s''],
     tags = map str [''NOUN,sing'', ''NOUN,plur'', ''VERB,sing,3per'', ''CONJ''],
     paradigms = [[0, 1, 1, 0, 1, 2, 0, 0, 0], [0, 3, 0]],
     wordsDAWG = Some demoWords,
     probDAWG = Some demoProb,
     predictionDAWGs = [demoPrediction] \<rparr>"


definition asciiLower :: "rune \<Rightarrow> rune" where
  "asciiLower r = (if 65 \<le> r \<and> r \<le> 90 then r + 32 else r)"

definition demoRec :: "gostring \<Rightarrow> panic + analyses" where
  "demoRec w =
     (if w = str ''a'' then Inr ([str ''a''], [str ''a''], [str ''NOUN,anim sing''])
      else Inr ([str ''b''], [str ''b''], [str ''NOUN,inan sing'']))"

text \<open>
  A directory \<open>d\<close> that holds every resource but the optional prefix list, and a
  directory \<open>e\<close> in which the suffix list is missing.
\<close>

definition demoWorld :: world where
  "demoWorld = \<lparr>
     os_Open = (\<lambda>fn.
       if fn = ''d/gramtab-opencorpora-int.json'' \<or> fn = ''e/gramtab-opencorpora-int.json''
         then Inr [1]
       else if fn = ''d/suffixes.json'' then Inr [2]
       else if fn = ''d/paradigms.array'' then Inr [1, 0, 3, 0, 0, 0, 0, 0, 0, 0]
       else Inl ErrNotExist),
     json_Decode = (\<lambda>bs.
       if bs = [1] then Inr [str ''NOUN'']
       else if bs = [2] then Inr [[]]
       else Inl ErrOther),
     newDAWG = (\<lambda>fn.
       if fn = ''d/words.dawg'' then Inr demoWords
       else if fn = ''d/p_t_given_w.intdawg'' then Inr demoProb
       else if fn = ''d/prediction-suffixes-0.dawg'' \<or> fn = ''d/prediction-suffixes-1.dawg''
               \<or> fn = ''d/prediction-suffixes-2.dawg'' then Inr demoPrediction
       else Inl ErrNotExist),
     python_Run = Inr ''d'' \<rparr>"

definition demoLoaded :: globals where
  "demoLoaded = \<lparr> prefixes = defaultPrefixes, suffixes = [[]], tags = [str ''NOUN''],
     paradigms = [[0, 0, 0]], wordsDAWG = Some demoWords, probDAWG = Some demoProb,
     predictionDAWGs = [demoPrediction, demoPrediction, demoPrediction] \<rparr>"

section \<open>Notions used in the statements\<close>

text \<open>
  What the theorems below speak of: the numbers held by a payload record, the affixes and
  the tag of a form of a paradigm, the rows of the candidate set, the pairs of an
  agreement compound, the well-formedness of the dictionary data, the analyses of a
  word, and the files that the initialization reads.
\<close>

text \<open>The big-endian \<open>uint16\<close> at offset \<open>k\<close> of a payload record, as a number.\<close>

definition uint16_at :: "byte list \<Rightarrow> nat \<Rightarrow> nat" where
  "uint16_at v k = unat (or (ucast (v ! Suc k)) (push_bit 8 (ucast (v ! k))) :: 16 word)"

definition payloadParadigm :: "globals \<Rightarrow> byte list \<Rightarrow> nat \<Rightarrow> 16 word list" where
  "payloadParadigm G v k = paradigms G ! uint16_at v k"

definition formTag :: "globals \<Rightarrow> 16 word list \<Rightarrow> nat \<Rightarrow> gostring" where
  "formTag G p i = tags G ! unat (p ! (i + length p div 3))"

definition formPrefix :: "globals \<Rightarrow> 16 word list \<Rightarrow> nat \<Rightarrow> gostring" where
  "formPrefix G p i = prefixes G ! unat (p ! (i + 2 * (length p div 3)))"

definition formSuffix :: "globals \<Rightarrow> 16 word list \<Rightarrow> nat \<Rightarrow> gostring" where
  "formSuffix G p i = suffixes G ! unat (p ! i)"

definition formNorm :: "globals \<Rightarrow> 16 word list \<Rightarrow> nat \<Rightarrow> gostring \<Rightarrow> gostring" where
  "formNorm G p i key =
     (if i = 0 then key
      else formPrefix G p 0
           @ TrimSuffix (TrimPrefix key (formPrefix G p i)) (formSuffix G p i)
           @ formSuffix G p 0)"

definition formInRange :: "globals \<Rightarrow> 16 word list \<Rightarrow> nat \<Rightarrow> bool" where
  "formInRange G p i =
     (i + 2 * (length p div 3) < length p
      \<and> unat (p ! i) < length (suffixes G)
      \<and> unat (p ! (i + length p div 3)) < length (tags G)
      \<and> unat (p ! (i + 2 * (length p div 3))) < length (prefixes G))"

definition payloadInRange :: "globals \<Rightarrow> nat \<Rightarrow> byte list \<Rightarrow> bool" where
  "payloadInRange G k v =
     (k + 4 \<le> length v
      \<and> uint16_at v k < length (paradigms G)
      \<and> formInRange G (payloadParadigm G v k) (uint16_at v (k + 2))
      \<and> formInRange G (payloadParadigm G v k) 0)"

definition emitted :: "globals \<Rightarrow> dawg \<Rightarrow> gostring \<Rightarrow> gostring \<times> byte list \<Rightarrow> gostring \<times> gostring \<times> gostring \<times> float64" where
  "emitted G pd word kv =
     (let p = payloadParadigm G (snd kv) 0; i = uint16_at (snd kv) 2; tag = formTag G p i
      in (fst kv, formNorm G p i (fst kv), tag, probability pd word tag))"

definition weight :: "gostring \<times> gostring \<times> gostring \<times> float64 \<Rightarrow> float64" where
  "weight r = snd (snd (snd r))"


definition payloads :: "(gostring \<times> byte list list) list \<Rightarrow> (gostring \<times> byte list) list" where
  "payloads items = concat (map (\<lambda>it. map (Pair (fst it)) (snd it)) items)"

definition extendWith ::
  "(gostring \<times> gostring \<times> gostring \<times> float64) list \<Rightarrow> parse \<times> bool \<Rightarrow> parse \<times> bool" where
  "extendWith rs acc =
     (case acc of ((ws, ns, ts, ps), nz) \<Rightarrow>
        ((ws @ map fst rs, ns @ map (\<lambda>r. fst (snd r)) rs, ts @ map (\<lambda>r. fst (snd (snd r))) rs,
          ps @ map weight rs), nz \<or> (\<exists>r\<in>set rs. 0 < weight r)))"

text \<open>
  The pairs of indices (left candidate, right candidate) whose feature signatures are
  equal strings, in the order of the two nested loops.
\<close>

definition agreeingPairs :: "gostring list \<Rightarrow> gostring list \<Rightarrow> (nat \<times> nat) list" where
  "agreeingPairs ltags rtags =
     concat (map (\<lambda>i. map (Pair i)
       (filter (\<lambda>j. similarityFeatures (ltags ! i) = similarityFeatures (rtags ! j))
          [0 ..< length rtags])) [0 ..< length ltags])"

definition addCompounds ::
  "gostring list \<times> gostring list \<Rightarrow> gostring list \<Rightarrow> gostring list \<times> gostring list
     \<Rightarrow> (nat \<times> nat) list \<Rightarrow> analyses \<Rightarrow> analyses" where
  "addCompounds l ltags r pairs acc =
     (fst acc @ map (\<lambda>(i, j). fst l ! i @ [hyphen] @ fst r ! j) pairs,
      fst (snd acc) @ map (\<lambda>(i, j). snd l ! i @ [hyphen] @ snd r ! j) pairs,
      snd (snd acc) @ map (\<lambda>(i, j). ltags ! i) pairs)"

definition sameLength :: "analyses \<Rightarrow> bool" where
  "sameLength r = (length (fst (snd r)) = length (fst r) \<and> length (snd (snd r)) = length (fst r))"

text \<open>
  The tables are well-formed when the package is initialized, every payload of the
  words automaton holds a paradigm number and a form index that are in range (with
  the affix and tag indices of that form and of form 0 inside their tables), every
  payload of a prediction automaton holds them behind the two bytes of the count, and
  there is a prediction automaton for every paradigm prefix.
\<close>

definition wellFormed :: "globals \<Rightarrow> bool" where
  "wellFormed G =
     (probDAWG G \<noteq> None \<and> wordsDAWG G \<noteq> None
      \<and> (\<forall>wd q. wordsDAWG G = Some wd \<longrightarrow>
            (\<forall>it\<in>set (similarItems wd q). \<forall>v\<in>set (snd it). payloadInRange G 0 v))
      \<and> length (prefixes G) \<le> length (predictionDAWGs G)
      \<and> (\<forall>d\<in>set (predictionDAWGs G). \<forall>q.
            \<forall>it\<in>set (similarItems d q). \<forall>v\<in>set (snd it). payloadInRange G 2 v))"

definition returns :: "panic + analyses \<Rightarrow> bool" where
  "returns m = (\<exists>r. m = Inr r \<and> sameLength r)"

definition productiveTags :: "analyses \<Rightarrow> bool" where
  "productiveTags r = list_all productive (snd (snd r))"

text \<open>
  The analysis that a payload record stands for: the key, the normal form of the key
  and the tag of the form, with the paradigm number read at offset \<open>k\<close> of the record
  and the form index behind it.
\<close>

definition decoded :: "globals \<Rightarrow> nat \<Rightarrow> gostring \<Rightarrow> byte list \<Rightarrow> gostring \<times> gostring \<times> gostring" where
  "decoded G k key v =
     (let p = payloadParadigm G v k; i = uint16_at v (k + 2)
      in (key, formNorm G p i key, formTag G p i))"

text \<open>An analysis of the dictionary analyzer: a payload of an item that matches the word.\<close>

definition dictionaryRow :: "globals \<Rightarrow> gostring \<Rightarrow> gostring \<times> gostring \<times> gostring \<Rightarrow> bool" where
  "dictionaryRow G word r \<longleftrightarrow>
     (\<exists>wd it v. wordsDAWG G = Some wd \<and> it \<in> set (similarItems wd word) \<and> v \<in> set (snd it)
        \<and> r = decoded G 0 (fst it) v)"

text \<open>
  An analysis of the suffix prediction: a payload with a productive tag of an item that
  matches an ending of the word, in the prediction automaton of a paradigm prefix that
  the word starts with; the key follows the start of the word.
\<close>

definition predictedRow :: "globals \<Rightarrow> gostring \<Rightarrow> gostring \<times> gostring \<times> gostring \<Rightarrow> bool" where
  "predictedRow G word r \<longleftrightarrow>
     (\<exists>k sp it v. 4 \<le> length word \<and> k < length (prefixes G) \<and> k < length (predictionDAWGs G)
        \<and> HasPrefix word (prefixes G ! k) \<and> sp \<in> set (split5 word)
        \<and> it \<in> set (similarItems (predictionDAWGs G ! k) (snd sp)) \<and> v \<in> set (snd it)
        \<and> r = decoded G 2 (fst sp @ fst it) v \<and> productive (snd (snd r)))"

text \<open>
  One analysis of a word by the extended analyzer: a triple of word, normal form and
  tag that one strategy builds from one analysis of the part of the word it analyzes.
  The rules follow the specification's description of the rows of the dictionary
  analyzer and of the strategies (a) to (f): the particle after a hyphen is attached
  to the word and the normal form of one analysis of the rest; the adverb is built on
  the word of one analysis with an adjective tag in the singular dative; a known prefix
  is put before the word and the normal form of one productive analysis of the
  remainder; an agreement compound joins one analysis of the left part and one of the
  right part with equal feature signatures and takes the tag of the left one; the
  fixed left part is put before one analysis of the right part; the unknown prefix is
  put before one productive row of the dictionary analyzer; a predicted row is decoded
  from one payload of a prediction automaton.
\<close>

inductive analysis ::
  "(rune \<Rightarrow> rune) \<Rightarrow> globals \<Rightarrow> gostring \<Rightarrow> gostring \<times> gostring \<times> gostring \<Rightarrow> bool"
  for L :: "rune \<Rightarrow> rune" and G :: globals where
  dictionary:
    "dictionaryRow G (ToLower L word) r \<Longrightarrow> analysis L G word r"
| particle:
    "suffix \<in> set particlesAfterHyphen \<Longrightarrow> HasSuffix (ToLower L word) suffix \<Longrightarrow>
     analysis L G (TrimSuffix (ToLower L word) suffix) (w, n, t) \<Longrightarrow>
     analysis L G word (w @ suffix, n @ suffix, t)"
| adverb:
    "5 \<le> length (ToLower L word) \<Longrightarrow> HasPrefix (ToLower L word) po_hyphen \<Longrightarrow>
     analysis L G (drop 3 (ToLower L word)) (w, n, t) \<Longrightarrow>
     HasPrefix t (str ''ADJF'') \<Longrightarrow> Contains t (str ''sing,datv'') \<Longrightarrow>
     analysis L G word (po_hyphen @ w, po_hyphen @ w, str ''ADVB'')"
| knownPrefix:
    "prefix \<in> set knownPrefixes \<Longrightarrow> HasPrefix (ToLower L word) prefix \<Longrightarrow>
     3 \<le> length (TrimPrefix (ToLower L word) prefix) \<Longrightarrow>
     analysis L G (TrimPrefix (ToLower L word) prefix) (w, n, t) \<Longrightarrow> productive t \<Longrightarrow>
     analysis L G word (prefix @ w, prefix @ n, t)"
| agreement:
    "count_list (ToLower L word) hyphen = 1 \<Longrightarrow>
     \<not> HasPrefix (ToLower L word) [hyphen] \<Longrightarrow> \<not> HasSuffix (ToLower L word) [hyphen] \<Longrightarrow>
     analysis L G (leftPart (ToLower L word)) (lword, lnorm, ltag) \<Longrightarrow>
     analysis L G (rightPart (ToLower L word)) (rword, rnorm, rtag) \<Longrightarrow>
     similarityFeatures ltag = similarityFeatures rtag \<Longrightarrow>
     analysis L G word (lword @ [hyphen] @ rword, lnorm @ [hyphen] @ rnorm, ltag)"
| fixedLeft:
    "count_list (ToLower L word) hyphen = 1 \<Longrightarrow>
     \<not> HasPrefix (ToLower L word) [hyphen] \<Longrightarrow> \<not> HasSuffix (ToLower L word) [hyphen] \<Longrightarrow>
     analysis L G (rightPart (ToLower L word)) (rword, rnorm, rtag) \<Longrightarrow>
     analysis L G word
       (leftPart (ToLower L word) @ [hyphen] @ rword,
        leftPart (ToLower L word) @ [hyphen] @ rnorm, rtag)"
| unknownPrefix:
    "sp \<in> set (wordSplits (ToLower L word) 3 5) \<Longrightarrow> dictionaryRow G (snd sp) (w, n, t) \<Longrightarrow>
     productive t \<Longrightarrow> analysis L G word (fst sp @ w, fst sp @ n, t)"
| predicted:
    "predictedRow G (ToLower L word) r \<Longrightarrow> analysis L G word r"

text \<open>
  The rows of a result, index by index, and a result whose three lists have one
  length and whose every row satisfies \<open>P\<close>.
\<close>

definition triples :: "analyses \<Rightarrow> (gostring \<times> gostring \<times> gostring) list" where
  "triples r = zip (fst r) (zip (fst (snd r)) (snd (snd r)))"

definition aligned :: "(gostring \<times> gostring \<times> gostring \<Rightarrow> bool) \<Rightarrow> analyses \<Rightarrow> bool" where
  "aligned P r \<longleftrightarrow> sameLength r \<and> list_all P (triples r)"

text \<open>
  The files of a dictionary directory, named as \<open>InitWith\<close> names them, and what it
  means that \<open>InitWith\<close> has read a table: the prefix list is read when its file
  decodes, or is the default list when the file does not exist; the paradigms are read
  with result \<open>err\<close> when the file opens, holds a count, and the loop over the
  paradigms ends with \<open>err\<close> having appended the paradigms \<open>pa\<close>.
\<close>

definition tagsPath :: "string \<Rightarrow> string" where
  "tagsPath dir = filepath_Join dir ''gramtab-opencorpora-int.json''"

definition prefixesPath :: "string \<Rightarrow> string" where
  "prefixesPath dir = filepath_Join dir ''paradigm-prefixes.json''"

definition suffixesPath :: "string \<Rightarrow> string" where
  "suffixesPath dir = filepath_Join dir ''suffixes.json''"

definition paradigmsPath :: "string \<Rightarrow> string" where
  "paradigmsPath dir = filepath_Join dir ''paradigms.array''"

definition dawgPath :: "string \<Rightarrow> string" where
  "dawgPath dir = filepath_Join dir ''words.dawg''"

definition probPath :: "string \<Rightarrow> string" where
  "probPath dir = filepath_Join dir ''p_t_given_w.intdawg''"



definition readParadigms :: "world \<Rightarrow> string \<Rightarrow> error option \<Rightarrow> 16 word list list \<Rightarrow> bool" where
  "readParadigms W dir err pa \<longleftrightarrow>
     (\<exists>f n bs. os_Open W (paradigmsPath dir) = Inr f \<and> readUint16 f = Inr (n, bs)
        \<and> loadParadigms_loop (unat n) bs [] = (err, pa))"

section \<open>Auxiliary facts\<close>

lemma andThen_Inr [simp]: "andThen (Inr x) f = f x"
  by (simp add: andThen_def)

lemma andThen_Inl [simp]: "andThen (Inl e) f = Inl e"
  by (simp add: andThen_def)

lemma andThen_eq_Inr: "andThen m f = Inr y \<longleftrightarrow> (\<exists>x. m = Inr x \<and> f x = Inr y)"
  by (cases m) simp_all

lemma index_eq_Inr: "index xs i = Inr x \<longleftrightarrow> i < length xs \<and> x = xs ! i"
  by (auto simp: index_def)

lemma XParse_found:
  assumes "Parse G (ToLower L w) = Inr (words, norms, tags')" and "words \<noteq> []"
  shows "XParse L G w = Inr (words, norms, tags')"
  using assms by (subst XParse.simps) simp

lemma BigEndian_Uint16_drop:
  "BigEndian_Uint16 (drop k v) = Inr x \<longleftrightarrow> k + 2 \<le> length v \<and> x = or (ucast (v ! Suc k)) (push_bit 8 (ucast (v ! k)))"
proof (cases "drop k v")
  case Nil
  then show ?thesis by (simp add: BigEndian_Uint16_def)
next
  case (Cons b0 r)
  note c0 = Cons
  show ?thesis
  proof (cases r)
    case Nil
    with c0 have "length (drop k v) = 1" by simp
    then have "length v = Suc k" by simp
    with c0 Nil show ?thesis by (simp add: BigEndian_Uint16_def)
  next
    case (Cons b1 r')
    with c0 have d: "drop k v = b0 # b1 # r'" by simp
    then have "length (drop k v) \<ge> 2" by simp
    then have len: "k + 2 \<le> length v" by simp
    have "b0 = drop k v ! 0" "b1 = drop k v ! 1" using d by simp_all
    then have "b0 = v ! k" "b1 = v ! Suc k" using len by simp_all
    with d len show ?thesis by (auto simp: BigEndian_Uint16_def)
  qed
qed

lemma BigEndian_Uint16_0:
  "BigEndian_Uint16 v = Inr x \<longleftrightarrow> 2 \<le> length v \<and> x = or (ucast (v ! Suc 0)) (push_bit 8 (ucast (v ! 0)))"
  using BigEndian_Uint16_drop [of 0 v x] by (simp add: numeral_2_eq_2)

lemma sliceFrom_eq_Inr: "sliceFrom xs k = Inr ys \<longleftrightarrow> k \<le> length xs \<and> ys = drop k xs"
  by (auto simp: sliceFrom_def)

lemma prefixSuffixTag_eq_Inr:
  "prefixSuffixTag G p i = Inr r \<longleftrightarrow>
     formInRange G p i \<and> r = (formPrefix G p i, formSuffix G p i, formTag G p i)"
  by (auto simp: prefixSuffixTag_def Let_def andThen_eq_Inr index_eq_Inr formInRange_def
      formPrefix_def formSuffix_def formTag_def)

lemma normalForm_eq_Inr:
  "normalForm G p i (formPrefix G p i) (formSuffix G p i) key = Inr r \<longleftrightarrow>
     (i \<noteq> 0 \<longrightarrow> formInRange G p 0) \<and> r = formNorm G p i key"
  by (auto simp: normalForm_def Let_def andThen_eq_Inr prefixSuffixTag_eq_Inr formNorm_def)

lemma parseValue_eq_Inr:
  "parseValue G pd word key v ((ws, ns, ts, ps), nz) = Inr r \<Longrightarrow>
     (case emitted G pd word (key, v) of (w, n, t, pr) \<Rightarrow>
        r = ((ws @ [w], ns @ [n], ts @ [t], ps @ [pr]), nz \<or> 0 < pr))"
  by (auto simp: parseValue_def andThen_eq_Inr index_eq_Inr sliceFrom_eq_Inr BigEndian_Uint16_0
      BigEndian_Uint16_drop prefixSuffixTag_eq_Inr normalForm_eq_Inr emitted_def Let_def
      payloadParadigm_def uint16_at_def)

lemma extendWith_Nil [simp]: "extendWith [] acc = acc"
  by (simp add: extendWith_def split: prod.splits)

lemma extendWith_append: "extendWith rs (extendWith rs' acc) = extendWith (rs' @ rs) acc"
  by (auto simp: extendWith_def split: prod.splits)

lemma parseValue_extend:
  "parseValue G pd word key v acc = Inr r \<Longrightarrow> r = extendWith [emitted G pd word (key, v)] acc"
proof -
  assume a: "parseValue G pd word key v acc = Inr r"
  obtain ws ns ts ps nz where acc: "acc = ((ws, ns, ts, ps), nz)"
    by (metis prod.exhaust)
  show ?thesis
    using parseValue_eq_Inr [OF a [unfolded acc]]
    by (simp add: acc extendWith_def weight_def split: prod.splits)
qed

lemma parseValues_extend:
  "parseValues G pd word key vs acc = Inr r \<Longrightarrow>
     r = extendWith (map (\<lambda>v. emitted G pd word (key, v)) vs) acc"
proof (induction vs arbitrary: acc)
  case Nil
  then show ?case by simp
next
  case (Cons v vs)
  then obtain a where 1: "parseValue G pd word key v acc = Inr a"
    and 2: "parseValues G pd word key vs a = Inr r"
    by (auto simp: andThen_eq_Inr)
  show ?case
    using Cons.IH [OF 2] parseValue_extend [OF 1] by (simp add: extendWith_append)
qed

lemma parseItems_extend:
  "parseItems G pd word items acc = Inr r \<Longrightarrow>
     r = extendWith (map (emitted G pd word) (payloads items)) acc"
proof (induction items arbitrary: acc)
  case Nil
  then show ?case by (simp add: payloads_def)
next
  case (Cons it items)
  then obtain a where 1: "parseValues G pd word (fst it) (snd it) acc = Inr a"
    and 2: "parseItems G pd word items a = Inr r"
    by (auto simp: andThen_eq_Inr)
  have "map (emitted G pd word) (payloads (it # items)) =
        map (\<lambda>v. emitted G pd word (fst it, v)) (snd it) @ map (emitted G pd word) (payloads items)"
    by (simp add: payloads_def comp_def)
  then show ?case
    using Cons.IH [OF 2] parseValues_extend [OF 1] by (simp add: extendWith_append)
qed

lemma rows_columns:
  "rows (map fst rs, map (\<lambda>r. fst (snd r)) rs, map (\<lambda>r. fst (snd (snd r))) rs, map weight rs) = rs"
  by (induction rs) (simp_all add: rows_def weight_def)

lemma candidateSet_rows:
  assumes "candidateSet G pd wd word = Inr ((ws, ns, ts, ps), nz)"
  defines "R \<equiv> map (emitted G pd word) (payloads (similarItems wd word))"
  shows "ws = map fst R" and "ns = map (\<lambda>r. fst (snd r)) R"
    and "ts = map (\<lambda>r. fst (snd (snd r))) R" and "ps = map weight R"
    and "nz = (\<exists>r\<in>set R. 0 < weight r)" and "rows (ws, ns, ts, ps) = R"
proof -
  have e: "((ws, ns, ts, ps), nz) = extendWith R (([], [], [], []), False)"
    using parseItems_extend [OF assms(1) [unfolded candidateSet_def]] by (simp add: R_def)
  show "ws = map fst R" "ns = map (\<lambda>r. fst (snd r)) R"
    "ts = map (\<lambda>r. fst (snd (snd r))) R" "ps = map weight R"
    "nz = (\<exists>r\<in>set R. 0 < weight r)"
    using e by (simp_all add: extendWith_def)
  then show "rows (ws, ns, ts, ps) = R"
    by (simp add: rows_columns)
qed


lemma Parse_unfold:
  assumes "probDAWG G = Some pd" and "wordsDAWG G = Some wd"
    and "candidateSet G pd wd word = Inr ((ws, ns, ts, ps), nz)"
  shows "Parse G word = Inr (if nz then sort_Stable (ws, ns, ts, ps) else (ws, ns, ts))"
  using assms by (simp add: Parse_def)


lemma demo_weights:
  "float64_div (float64_of_int 0) 1000000 = 0"
  "float64_div (float64_of_int 250000) 1000000 = 1 / 4"
  "float64_div (float64_of_int 750000) 1000000 = 3 / 4"
  "float64_div (float64_of_int 9007199254740992) 1000000 = 4722366482869645 / 524288"
  "float64_div (float64_of_int 9007199254740993) 1000000 = 4722366482869645 / 524288"
  by code_simp+

lemmas demo_defs = demoG_def demoWords_def demoProb_def demoPrediction_def catTo_def
lemmas eval_defs = str_def Parse_def candidateSet_def parseValue_def prefixSuffixTag_def
  normalForm_def index_def sliceFrom_def BigEndian_Uint16_def probability_def demo_weights
  TrimPrefix_def TrimSuffix_def HasSuffix_def sort_Stable_def rows_def columns_def

lemma demo_cand_cats:
  "candidateSet demoG demoProb demoWords (str ''cats'') =
     Inr (([str ''cats'', str ''cats''], [str ''cat'', str ''cat''],
           [str ''NOUN,plur'', str ''VERB,sing,3per''], [1/4, 3/4]), True)"
  by (simp add: demo_defs eval_defs)

lemma demo_Parse_cats:
  "Parse demoG (str ''cats'') =
     Inr ([str ''cats'', str ''cats''], [str ''cat'', str ''cat''],
          [str ''VERB,sing,3per'', str ''NOUN,plur''])"
  by (simp add: demo_defs eval_defs)

lemma demo_Parse_cat:
  "Parse demoG (str ''cat'') = Inr ([str ''cat''], [str ''cat''], [str ''NOUN,sing''])"
  by (simp add: demo_defs eval_defs)

lemma demo_Parse_catTo:
  "Parse demoG catTo = Inr ([catTo], [catTo], [str ''CONJ''])"
  by (simp add: demo_defs eval_defs)

section \<open>Dictionary precedence\<close>

text \<open>
  C1. For every word that the dictionary analyzer finds (\<open>Parse\<close> of the lowercased
  word returns non-empty lists), \<open>XParse\<close> returns exactly the result of \<open>Parse\<close> of
  the lowercased word: the same words, norms and tags in the same order, and thus
  nothing of a fallback strategy.
\<close>

theorem XParse_dictionary_precedence:
  assumes "Parse G (ToLower L w) = Inr (words, norms, tags')" and "words \<noteq> []"
  shows "XParse L G w = Inr (words, norms, tags')"
  using assms by (subst XParse.simps) simp

theorem XParse_dictionary_precedence_witness:
  "Parse demoG (ToLower asciiLower (str ''CATS'')) =
     Inr ([str ''cats'', str ''cats''], [str ''cat'', str ''cat''],
          [str ''VERB,sing,3per'', str ''NOUN,plur''])
   \<and> [str ''cats'', str ''cats''] \<noteq> []
   \<and> XParse asciiLower demoG (str ''CATS'') =
     Inr ([str ''cats'', str ''cats''], [str ''cat'', str ''cat''],
          [str ''VERB,sing,3per'', str ''NOUN,plur''])"
proof -
  have l: "ToLower asciiLower (str ''CATS'') = str ''cats''"
    by (simp add: ToLower_def asciiLower_def str_def)
  have p: "Parse demoG (ToLower asciiLower (str ''CATS'')) =
     Inr ([str ''cats'', str ''cats''], [str ''cat'', str ''cat''],
          [str ''VERB,sing,3per'', str ''NOUN,plur''])"
    unfolding l by (rule demo_Parse_cats)
  have n: "[str ''cats'', str ''cats''] \<noteq> []" by simp
  show ?thesis
    using p n XParse_dictionary_precedence [OF p n] by simp
qed

section \<open>Rounding to 53 bits\<close>









lemma ulpExponent_minus [simp]: "ulpExponent (- x) = ulpExponent x"
  by (simp add: ulpExponent_def)















section \<open>Ranking by probability\<close>







section \<open>Decoding a payload\<close>

lemma zip_columns:
  "zip (map fst rs) (zip (map (\<lambda>r. fst (snd r)) rs) (map (\<lambda>r. fst (snd (snd r))) rs)) =
     map (\<lambda>r. (fst r, fst (snd r), fst (snd (snd r)))) rs"
  by (induction rs) simp_all

lemma Parse_triples:
  assumes "probDAWG G = Some pd" and "wordsDAWG G = Some wd"
    and "candidateSet G pd wd word = Inr ((ws, ns, ts, ps), nz)"
  shows "\<exists>words norms tags'. Parse G word = Inr (words, norms, tags')
           \<and> mset (zip words (zip norms tags')) = mset (zip ws (zip ns ts))"
proof -
  define R where "R = map (emitted G pd word) (payloads (similarItems wd word))"
  note c = candidateSet_rows [OF assms(3), folded R_def]
  let ?t = "\<lambda>r :: gostring \<times> gostring \<times> gostring \<times> float64. (fst r, fst (snd r), fst (snd (snd r)))"
  have z: "zip ws (zip ns ts) = map ?t R"
    unfolding c(1-3) by (rule zip_columns)
  show ?thesis
  proof (cases nz)
    case False
    then show ?thesis using Parse_unfold [OF assms] by simp
  next
    case True
    let ?S = "sort_key (\<lambda>r. - snd (snd (snd r))) R"
    have "Parse G word = Inr (columns ?S)"
      using True Parse_unfold [OF assms] c(6) by (simp add: sort_Stable_def)
    moreover have "mset (map ?t ?S) = mset (map ?t R)"
      by simp
    ultimately show ?thesis
      unfolding z by (auto simp: columns_def zip_columns)
  qed
qed

text \<open>
  C4. For every payload decoded to (paradigm \<open>p\<close>, form index \<open>i\<close>), with
  \<open>n = len(p)/3\<close>, the emitted tag is \<open>tags[p[i+n]]\<close>, and the emitted normal form is
  the matched key itself when \<open>i = 0\<close> and otherwise the prefix of form 0, the stem and
  the suffix of form 0, where the stem is the matched key with the prefix of form \<open>i\<close>
  stripped from the front and the suffix of form \<open>i\<close> stripped from the end. The
  candidate set holds one such triple per payload, in traversal order, and \<open>Parse\<close>
  returns these triples (possibly reordered by the ranking).
\<close>

theorem candidate_decoding:
  assumes "probDAWG G = Some pd" and "wordsDAWG G = Some wd"
    and "candidateSet G pd wd word = Inr ((ws, ns, ts, ps), nz)"
  shows "length ws = length (payloads (similarItems wd word))
    \<and> length ns = length ws \<and> length ts = length ws
    \<and> (\<forall>j<length ws.
         (case payloads (similarItems wd word) ! j of (key, v) \<Rightarrow>
            let p = paradigms G ! uint16_at v 0; i = uint16_at v 2; n = length p div 3 in
              ws ! j = key
            \<and> ts ! j = tags G ! unat (p ! (i + n))
            \<and> ns ! j =
                (if i = 0 then key
                 else prefixes G ! unat (p ! (0 + 2 * n))
                      @ TrimSuffix (TrimPrefix key (prefixes G ! unat (p ! (i + 2 * n))))
                          (suffixes G ! unat (p ! i))
                      @ suffixes G ! unat (p ! 0))))
    \<and> (\<exists>words norms tags'. Parse G word = Inr (words, norms, tags')
           \<and> mset (zip words (zip norms tags')) = mset (zip ws (zip ns ts)))"
proof -
  define P where "P = payloads (similarItems wd word)"
  define R where "R = map (emitted G pd word) P"
  note c = candidateSet_rows [OF assms(3), folded P_def, folded R_def]
  have len: "length ws = length P" "length ns = length ws" "length ts = length ws"
    using c(1-3) by (simp_all add: R_def)
  have row: "(case P ! j of (key, v) \<Rightarrow>
            let p = paradigms G ! uint16_at v 0; i = uint16_at v 2; n = length p div 3 in
              ws ! j = key
            \<and> ts ! j = tags G ! unat (p ! (i + n))
            \<and> ns ! j =
                (if i = 0 then key
                 else prefixes G ! unat (p ! (0 + 2 * n))
                      @ TrimSuffix (TrimPrefix key (prefixes G ! unat (p ! (i + 2 * n))))
                          (suffixes G ! unat (p ! i))
                      @ suffixes G ! unat (p ! 0)))" if "j < length ws" for j
  proof -
    have j: "j < length P" using that len by simp
    obtain key v where kv: "P ! j = (key, v)" by (cases "P ! j")
    have "R ! j = emitted G pd word (key, v)"
      using j kv by (simp add: R_def)
    then show ?thesis
      using j kv unfolding c(1-3)
      by (simp add: R_def emitted_def Let_def payloadParadigm_def formTag_def formNorm_def
          formPrefix_def formSuffix_def)
  qed
  show ?thesis
    using len row Parse_triples [OF assms] unfolding P_def by blast
qed

theorem candidate_decoding_witness:
  "probDAWG demoG = Some demoProb \<and> wordsDAWG demoG = Some demoWords
   \<and> candidateSet demoG demoProb demoWords (str ''cats'') =
       Inr (([str ''cats'', str ''cats''], [str ''cat'', str ''cat''],
             [str ''NOUN,plur'', str ''VERB,sing,3per''], [1/4, 3/4]), True)
   \<and> payloads (similarItems demoWords (str ''cats'')) ! 1 = (str ''cats'', [0, 0, 0, 2])
   \<and> uint16_at [0, 0, 0, 2] 2 = 2
   \<and> [str ''NOUN,plur'', str ''VERB,sing,3per''] ! 1 = tags demoG ! unat (paradigms demoG ! 0 ! (2 + 3))
   \<and> [str ''cat'', str ''cat''] ! 1 = [] @ TrimSuffix (TrimPrefix (str ''cats'') []) (str ''s'') @ []"
proof -
  have 1: "probDAWG demoG = Some demoProb" and 2: "wordsDAWG demoG = Some demoWords"
    by (simp_all add: demoG_def)
  have 3: "payloads (similarItems demoWords (str ''cats'')) ! 1 = (str ''cats'', [0, 0, 0, 2])"
    by (simp add: payloads_def demoWords_def str_def)
  have 4: "uint16_at [0, 0, 0, 2] 2 = 2"
    by (simp add: uint16_at_def)
  have 5: "[str ''NOUN,plur'', str ''VERB,sing,3per''] ! 1 = tags demoG ! unat (paradigms demoG ! 0 ! (2 + 3))"
    by (simp add: demoG_def)
  have 6: "[str ''cat'', str ''cat''] ! 1 = [] @ TrimSuffix (TrimPrefix (str ''cats'') []) (str ''s'') @ []"
    by (simp add: eval_defs)
  show ?thesis
    using 1 2 3 4 5 6 demo_cand_cats candidate_decoding [OF 1 2 demo_cand_cats]
    by blast
qed

section \<open>Feature signatures and agreement compounds\<close>

lemma ReplaceAllStringFunc_token:
  "\<forall>c\<in>set a. \<not> separator c \<Longrightarrow>
     ReplaceAllStringFunc f cur a = (if cur @ a = [] then [] else f (cur @ a))"
  by (induction a arbitrary: cur) auto

lemma ReplaceAllStringFunc_separator:
  "\<forall>x\<in>set a. \<not> separator x \<Longrightarrow> separator c \<Longrightarrow>
     ReplaceAllStringFunc f cur (a @ c # rest) =
       (if cur @ a = [] then [] else f (cur @ a)) @ c # ReplaceAllStringFunc f [] rest"
  by (induction a arbitrary: cur) auto

lemma emptyUnlessFeature_Nil [simp]: "emptyUnlessFeature [] = []"
  by (simp add: emptyUnlessFeature_def str_def featureGrammemes_def)

lemma featureGrammemes_unchanged:
  "s \<in> set featureGrammemes \<Longrightarrow> emptyUnlessFeature s = s"
proof -
  have "str ''loc1'' \<notin> set featureGrammemes" "str ''gen1'' \<notin> set featureGrammemes"
    by (simp_all add: featureGrammemes_def str_def)
  then show "s \<in> set featureGrammemes \<Longrightarrow> emptyUnlessFeature s = s"
    by (auto simp: emptyUnlessFeature_def)
qed

lemma addCompounds_Nil [simp]: "addCompounds l ltags r [] acc = acc"
  by (simp add: addCompounds_def)

lemma addCompounds_append:
  "addCompounds l ltags r qs (addCompounds l ltags r ps acc) = addCompounds l ltags r (ps @ qs) acc"
  by (simp add: addCompounds_def)

lemma compoundInner_pairs:
  "compoundInner l i (ltags ! i) lf r (drop j rfs) j acc = Inr acc' \<Longrightarrow>
     acc' = addCompounds l ltags r
       (map (Pair i) (filter (\<lambda>j'. lf = rfs ! j') [j ..< length rfs])) acc"
proof (induction "length rfs - j" arbitrary: j acc)
  case 0
  then show ?case by simp
next
  case (Suc n)
  then have j: "j < length rfs" by simp
  then have d: "drop j rfs = rfs ! j # drop (Suc j) rfs"
    by (simp add: Cons_nth_drop_Suc)
  have n: "n = length rfs - Suc j" using Suc.hyps(2) by simp
  have u: "[j ..< length rfs] = j # [Suc j ..< length rfs]"
    using j by (simp add: upt_conv_Cons)
  show ?case
  proof (cases "lf = rfs ! j")
    case False
    then have "compoundInner l i (ltags ! i) lf r (drop (Suc j) rfs) (Suc j) acc = Inr acc'"
      using Suc.prems unfolding d by simp
    from Suc.hyps(1) [OF n this] show ?thesis
      using False unfolding u by simp
  next
    case True
    then obtain lws rws lns rns where
      ix: "index (fst l) i = Inr lws" "index (fst r) j = Inr rws"
          "index (snd l) i = Inr lns" "index (snd r) j = Inr rns"
      and rest: "compoundInner l i (ltags ! i) lf r (drop (Suc j) rfs) (Suc j)
         (fst acc @ [lws @ [hyphen] @ rws], fst (snd acc) @ [lns @ [hyphen] @ rns],
          snd (snd acc) @ [ltags ! i]) = Inr acc'"
      using Suc.prems unfolding d by (auto simp: andThen_eq_Inr)
    have one: "(fst acc @ [lws @ [hyphen] @ rws], fst (snd acc) @ [lns @ [hyphen] @ rns],
          snd (snd acc) @ [ltags ! i]) = addCompounds l ltags r [(i, j)] acc"
      using ix by (simp add: addCompounds_def index_eq_Inr)
    from Suc.hyps(1) [OF n rest] show ?thesis
      using True unfolding u one by (simp add: addCompounds_append)
  qed
qed

lemma compoundOuter_pairs:
  "compoundOuter l (drop i ltags) i r (map similarityFeatures rtags) acc = Inr acc' \<Longrightarrow>
     acc' = addCompounds l ltags r
       (concat (map (\<lambda>i. map (Pair i)
          (filter (\<lambda>j. similarityFeatures (ltags ! i) = similarityFeatures (rtags ! j))
             [0 ..< length rtags])) [i ..< length ltags])) acc"
proof (induction "length ltags - i" arbitrary: i acc)
  case 0
  then show ?case by simp
next
  case (Suc n)
  then have i: "i < length ltags" by simp
  then have d: "drop i ltags = ltags ! i # drop (Suc i) ltags"
    by (simp add: Cons_nth_drop_Suc)
  obtain a where
    1: "compoundInner l i (ltags ! i) (similarityFeatures (ltags ! i)) r
          (map similarityFeatures rtags) 0 acc = Inr a"
    and 2: "compoundOuter l (drop (Suc i) ltags) (Suc i) r (map similarityFeatures rtags) a = Inr acc'"
    using Suc.prems unfolding d by (auto simp: andThen_eq_Inr)
  have f: "filter (\<lambda>j'. similarityFeatures (ltags ! i) = map similarityFeatures rtags ! j')
             [0 ..< length (map similarityFeatures rtags)] =
           filter (\<lambda>j. similarityFeatures (ltags ! i) = similarityFeatures (rtags ! j))
             [0 ..< length rtags]"
    by (rule filter_cong) auto
  have n: "n = length ltags - Suc i" using Suc.hyps(2) by simp
  have u: "[i ..< length ltags] = i # [Suc i ..< length ltags]"
    using i by (simp add: upt_conv_Cons)
  show ?case
    using Suc.hyps(1) [OF n 2] compoundInner_pairs [of l i ltags _ r 0, unfolded drop_0, OF 1]
    unfolding f u by (simp add: addCompounds_append)
qed

lemma hyphenated_unfold:
  assumes "rec (leftPart word) = Inr (lws, lns, lts)" and "rec (rightPart word) = Inr (rws, rns, rts)"
    and "hyphenated rec word acc = Inr acc'"
  shows "fixedLeft (leftPart word) (rws, rns) rts 0
           (addCompounds (lws, lns) lts (rws, rns) (agreeingPairs lts rts) acc) = Inr acc'"
proof -
  obtain mid where
    1: "compoundOuter (lws, lns) lts 0 (rws, rns) (map similarityFeatures rts) acc = Inr mid"
    and 2: "fixedLeft (leftPart word) (rws, rns) rts 0 mid = Inr acc'"
    using assms by (auto simp: hyphenated_def Let_def andThen_eq_Inr)
  have "mid = addCompounds (lws, lns) lts (rws, rns) (agreeingPairs lts rts) acc"
    using compoundOuter_pairs [of "(lws, lns)" 0 lts "(rws, rns)" rts acc mid] 1
    by (simp add: agreeingPairs_def)
  then show ?thesis using 2 by simp
qed

text \<open>
  C7, as the code has it. The feature signature of a tag keeps each whitelisted grammeme
  token (part-of-speech markers, sing/plur, grammatical case, person, tense)
  unchanged, rewrites the two tokens \<open>loc1\<close> and \<open>gen1\<close> to \<open>loct\<close> and \<open>gent\<close>, and
  replaces every other token by the empty string, token by token (the separators,
  space and comma, stay). In the hyphen-compound strategy a pair of a left and a right
  candidate is emitted as an agreement compound exactly when the two signatures are
  equal strings: the compounds appended are those of \<open>agreeingPairs\<close>, in loop order,
  and the fixed-left compounds follow.
\<close>

theorem feature_signature:
  "(s \<in> set featureGrammemes \<longrightarrow> emptyUnlessFeature s = s)
   \<and> emptyUnlessFeature (str ''loc1'') = str ''loct''
   \<and> emptyUnlessFeature (str ''gen1'') = str ''gent''
   \<and> (s \<notin> set featureGrammemes \<longrightarrow> s \<noteq> str ''loc1'' \<longrightarrow> s \<noteq> str ''gen1''
        \<longrightarrow> emptyUnlessFeature s = [])
   \<and> ((\<forall>c\<in>set tok. \<not> separator c) \<longrightarrow> similarityFeatures tok = emptyUnlessFeature tok)
   \<and> ((\<forall>c\<in>set tok. \<not> separator c) \<longrightarrow> separator sep \<longrightarrow>
        similarityFeatures (tok @ sep # rest) = emptyUnlessFeature tok @ sep # similarityFeatures rest)
   \<and> set (agreeingPairs ltags rtags) =
        {(i, j). i < length ltags \<and> j < length rtags
                 \<and> similarityFeatures (ltags ! i) = similarityFeatures (rtags ! j)}
   \<and> (rec (leftPart word) = Inr (lws, lns, ltags) \<longrightarrow> rec (rightPart word) = Inr (rws, rns, rtags)
        \<longrightarrow> hyphenated rec word acc = Inr acc'
        \<longrightarrow> fixedLeft (leftPart word) (rws, rns) rtags 0
              (addCompounds (lws, lns) ltags (rws, rns) (agreeingPairs ltags rtags) acc) = Inr acc')"
proof -
  have 1: "s \<in> set featureGrammemes \<longrightarrow> emptyUnlessFeature s = s"
    by (simp add: featureGrammemes_unchanged)
  have 2: "emptyUnlessFeature (str ''loc1'') = str ''loct''"
    "emptyUnlessFeature (str ''gen1'') = str ''gent''"
    by (simp_all add: emptyUnlessFeature_def str_def)
  have 3: "s \<notin> set featureGrammemes \<longrightarrow> s \<noteq> str ''loc1'' \<longrightarrow> s \<noteq> str ''gen1''
        \<longrightarrow> emptyUnlessFeature s = []"
    by (simp add: emptyUnlessFeature_def)
  have 4: "(\<forall>c\<in>set tok. \<not> separator c) \<longrightarrow> similarityFeatures tok = emptyUnlessFeature tok"
    by (simp add: similarityFeatures_def ReplaceAllStringFunc_token)
  have 5: "(\<forall>c\<in>set tok. \<not> separator c) \<longrightarrow> separator sep \<longrightarrow>
        similarityFeatures (tok @ sep # rest) = emptyUnlessFeature tok @ sep # similarityFeatures rest"
    by (simp add: similarityFeatures_def ReplaceAllStringFunc_separator)
  have 6: "set (agreeingPairs ltags rtags) =
        {(i, j). i < length ltags \<and> j < length rtags
                 \<and> similarityFeatures (ltags ! i) = similarityFeatures (rtags ! j)}"
    by (auto simp: agreeingPairs_def)
  have 7: "rec (leftPart word) = Inr (lws, lns, ltags) \<longrightarrow> rec (rightPart word) = Inr (rws, rns, rtags)
        \<longrightarrow> hyphenated rec word acc = Inr acc'
        \<longrightarrow> fixedLeft (leftPart word) (rws, rns) rtags 0
              (addCompounds (lws, lns) ltags (rws, rns) (agreeingPairs ltags rtags) acc) = Inr acc'"
    using hyphenated_unfold by blast
  show ?thesis
    using 1 2 3 4 5 6 7 by (intro conjI)
qed

lemma demo_signature:
  "similarityFeatures (str ''NOUN,anim sing'') = str ''NOUN, sing''"
  "similarityFeatures (str ''NOUN,inan sing'') = str ''NOUN, sing''"
  by (simp_all add: similarityFeatures_def emptyUnlessFeature_def featureGrammemes_def str_def
      separator_def)

theorem feature_signature_witness:
  "str ''sing'' \<in> set featureGrammemes
   \<and> emptyUnlessFeature (str ''sing'') = str ''sing''
   \<and> str ''anim'' \<notin> set featureGrammemes \<and> str ''anim'' \<noteq> str ''loc1''
   \<and> str ''anim'' \<noteq> str ''gen1'' \<and> emptyUnlessFeature (str ''anim'') = []
   \<and> list_all (\<lambda>c. \<not> separator c) (str ''NOUN'') \<and> separator (of_char CHR '','')
   \<and> similarityFeatures (str ''NOUN'' @ of_char CHR '','' # str ''anim sing'')
        = emptyUnlessFeature (str ''NOUN'') @ of_char CHR '','' # similarityFeatures (str ''anim sing'')
   \<and> demoRec (leftPart (str ''a-b'')) = Inr ([str ''a''], [str ''a''], [str ''NOUN,anim sing''])
   \<and> demoRec (rightPart (str ''a-b'')) = Inr ([str ''b''], [str ''b''], [str ''NOUN,inan sing''])
   \<and> agreeingPairs [str ''NOUN,anim sing''] [str ''NOUN,inan sing''] = [(0, 0)]
   \<and> hyphenated demoRec (str ''a-b'') ([], [], []) =
        Inr ([str ''a-b'', str ''a-b''], [str ''a-b'', str ''a-b''],
             [str ''NOUN,anim sing'', str ''NOUN,inan sing''])
   \<and> fixedLeft (leftPart (str ''a-b'')) ([str ''b''], [str ''b'']) [str ''NOUN,inan sing''] 0
        (addCompounds ([str ''a''], [str ''a'']) [str ''NOUN,anim sing''] ([str ''b''], [str ''b''])
           (agreeingPairs [str ''NOUN,anim sing''] [str ''NOUN,inan sing'']) ([], [], []))
        = Inr ([str ''a-b'', str ''a-b''], [str ''a-b'', str ''a-b''],
               [str ''NOUN,anim sing'', str ''NOUN,inan sing''])"
proof -
  have a: "str ''sing'' \<in> set featureGrammemes"
    "str ''anim'' \<notin> set featureGrammemes" "str ''anim'' \<noteq> str ''loc1''"
    "str ''anim'' \<noteq> str ''gen1''"
    by (simp_all add: featureGrammemes_def str_def)
  have b: "\<forall>c\<in>set (str ''NOUN''). \<not> separator c" "separator (of_char CHR '','')"
    by (simp_all add: separator_def str_def)
  have l: "leftPart (str ''a-b'') = str ''a''" and r: "rightPart (str ''a-b'') = str ''b''"
    by (simp_all add: leftPart_def rightPart_def hyphen_def str_def)
  have c: "demoRec (leftPart (str ''a-b'')) = Inr ([str ''a''], [str ''a''], [str ''NOUN,anim sing''])"
    "demoRec (rightPart (str ''a-b'')) = Inr ([str ''b''], [str ''b''], [str ''NOUN,inan sing''])"
    unfolding l r by (simp_all add: demoRec_def str_def)
  have p: "agreeingPairs [str ''NOUN,anim sing''] [str ''NOUN,inan sing''] = [(0, 0)]"
    by (simp add: agreeingPairs_def demo_signature)
  have h: "hyphenated demoRec (str ''a-b'') ([], [], []) =
        Inr ([str ''a-b'', str ''a-b''], [str ''a-b'', str ''a-b''],
             [str ''NOUN,anim sing'', str ''NOUN,inan sing''])"
    unfolding hyphenated_def l r Let_def
    by (simp add: demoRec_def demo_signature index_def) (simp add: str_def hyphen_def)
  note t = feature_signature [of "str ''sing''" "str ''NOUN''" "of_char CHR '',''" "str ''anim sing''"
      "[str ''NOUN,anim sing'']" "[str ''NOUN,inan sing'']" demoRec "str ''a-b''" "[str ''a'']"
      "[str ''a'']" "[str ''b'']" "[str ''b'']" "([], [], [])"
      "([str ''a-b'', str ''a-b''], [str ''a-b'', str ''a-b''],
        [str ''NOUN,anim sing'', str ''NOUN,inan sing''])"]
  note u = feature_signature [of "str ''anim''"]
  show ?thesis
    using a b c p h t u by (simp add: list_all_iff)
qed

theorem feature_signature_counterexample:
  "str ''loc1'' \<notin> set featureGrammemes
   \<and> similarityFeatures (str ''NOUN,inan,masc sing,loc1'') = str ''NOUN,, sing,loct''
   \<and> str ''loct'' \<noteq> []"
  by (simp add: similarityFeatures_def emptyUnlessFeature_def featureGrammemes_def str_def
      separator_def)

section \<open>Initialization: the guard and a failing load\<close>

lemma InitWith_success:
  "InitWith W dir G0 = (None, G) \<Longrightarrow> probDAWG G \<noteq> None"
  by (auto simp: InitWith_def Let_def split: if_splits prod.splits sum.splits option.splits)

lemma Init_success:
  "Init W G0 = (None, G) \<Longrightarrow> probDAWG G \<noteq> None"
  by (auto simp: Init_def dest: InitWith_success split: if_splits sum.splits)

text \<open>
  C10. After one successful initialization, every later call of \<open>Init\<close> or of
  \<open>InitWith\<close>, whatever the directory and the files, fails with the same error
  \<open>ErrAlreadyInitialized\<close> and leaves the loaded dictionary state as it is.
\<close>

theorem reinitialization_rejected:
  assumes "InitWith W dir G0 = (None, G) \<or> Init W G0 = (None, G)"
  shows "Init W' G = (Some ErrAlreadyInitialized, G)
       \<and> InitWith W' dir' G = (Some ErrAlreadyInitialized, G)"
proof -
  have "probDAWG G \<noteq> None"
    using assms InitWith_success Init_success by blast
  then show ?thesis
    by (simp add: Init_def InitWith_def)
qed

lemmas init_defs = InitWith_def Init_def dataPath_def TrimRight_def loadStringArray_def
  loadParadigms_def readUint16_def readUint16s_def filepath_Join_def predictionPath_def
  defaultPrefixes_def initialGlobals_def demoWorld_def

lemma Itoa_digits: "Itoa 0 = ''0''" "Itoa 1 = ''1''" "Itoa 2 = ''2''"
  by code_simp+

lemma upt_3: "[0 ..< 3] = [0, 1, 2]"
  by code_simp

lemma demo_loadParadigms:
  "loadParadigms demoWorld ''d/paradigms.array'' G = (None, G\<lparr>paradigms := [[0, 0, 0]]\<rparr>)"
  by (simp add: loadParadigms_def readUint16_def readUint16s_def demoWorld_def)

lemma demo_files:
  "loadStringArray demoWorld ''d/gramtab-opencorpora-int.json'' = ([str ''NOUN''], None)"
  "loadStringArray demoWorld ''d/paradigm-prefixes.json'' = ([], Some ErrNotExist)"
  "loadStringArray demoWorld ''d/suffixes.json'' = ([[]], None)"
  "newDAWG demoWorld ''d/words.dawg'' = Inr demoWords"
  "newDAWG demoWorld ''d/p_t_given_w.intdawg'' = Inr demoProb"
  "newDAWG demoWorld ''d/prediction-suffixes-0.dawg'' = Inr demoPrediction"
  "newDAWG demoWorld ''d/prediction-suffixes-1.dawg'' = Inr demoPrediction"
  "newDAWG demoWorld ''d/prediction-suffixes-2.dawg'' = Inr demoPrediction"
  by (simp_all add: loadStringArray_def demoWorld_def)

lemma demo_loadPredictions:
  "loadPredictions demoWorld ''d'' [0 ..< length defaultPrefixes] [] =
     (None, [demoPrediction, demoPrediction, demoPrediction])"
proof -
  have n: "[0 ..< length defaultPrefixes] = [0, 1, 2]"
    by (simp add: defaultPrefixes_def upt_3)
  have p: "predictionPath ''d'' 0 = ''d/prediction-suffixes-0.dawg''"
    "predictionPath ''d'' 1 = ''d/prediction-suffixes-1.dawg''"
    "predictionPath ''d'' 2 = ''d/prediction-suffixes-2.dawg''"
    unfolding predictionPath_def filepath_Join_def Itoa_digits by simp_all
  show ?thesis
    unfolding n using p by (simp add: demo_files One_nat_def [symmetric] del: One_nat_def)
qed

lemma demo_InitWith:
  "InitWith demoWorld ''d'' initialGlobals =
     (None, \<lparr> prefixes = defaultPrefixes, suffixes = [[]], tags = [str ''NOUN''],
              paradigms = [[0, 0, 0]], wordsDAWG = Some demoWords, probDAWG = Some demoProb,
              predictionDAWGs = [demoPrediction, demoPrediction, demoPrediction] \<rparr>)"
  unfolding InitWith_def filepath_Join_def
  by (simp add: demo_files demo_loadParadigms demo_loadPredictions initialGlobals_def)

theorem reinitialization_rejected_witness:
  "InitWith demoWorld ''d'' initialGlobals = (None, demoLoaded)
   \<and> Init demoWorld demoLoaded = (Some ErrAlreadyInitialized, demoLoaded)
   \<and> InitWith demoWorld ''e'' demoLoaded = (Some ErrAlreadyInitialized, demoLoaded)"
proof -
  have 1: "InitWith demoWorld ''d'' initialGlobals = (None, demoLoaded)"
    unfolding demoLoaded_def by (rule demo_InitWith)
  show ?thesis
    using 1 reinitialization_rejected [OF disjI1 [OF 1], of demoWorld "''e''"]
    by simp
qed


lemma loadParadigms_loop_appends:
  "loadParadigms_loop n bs ps = (err, ps') \<Longrightarrow> \<exists>new. ps' = ps @ new \<and> length new \<le> n
     \<and> (err \<noteq> None \<longrightarrow> length new < n)"
proof (induction n arbitrary: bs ps)
  case 0
  then show ?case by simp
next
  case (Suc n)
  show ?case
  proof (cases "readUint16 bs")
    case (Inl a)
    then show ?thesis using Suc.prems by simp
  next
    case (Inr r)
    obtain paraLen bs' where r: "r = (paraLen, bs')" by (cases r)
    show ?thesis
    proof (cases "readUint16s (unat paraLen) bs'")
      case (Inl a)
      then show ?thesis using Suc.prems Inr r by simp
    next
      case i: (Inr q)
      obtain para bs'' where q: "q = (para, bs'')" by (cases q)
      have "loadParadigms_loop n bs'' (ps @ [para]) = (err, ps')"
        using Suc.prems Inr r i q by simp
      from Suc.IH [OF this] obtain new where
        "ps' = (ps @ [para]) @ new" "length new \<le> n" "err \<noteq> None \<longrightarrow> length new < n"
        by blast
      then show ?thesis
        by (intro exI [of _ "para # new"]) simp
    qed
  qed
qed






lemma readParadigms_failed:
  "readParadigms W dir (Some e) pa \<Longrightarrow>
     \<exists>f n bs. os_Open W (paradigmsPath dir) = Inr f \<and> readUint16 f = Inr (n, bs) \<and> length pa < unat n"
  unfolding readParadigms_def
  by (metis loadParadigms_loop_appends append_Nil option.distinct(1))





section \<open>The paths through the extended analyzer\<close>

declare XParse.simps [simp del]

lemma if_eqD_True: "(if c then x else y) = z \<Longrightarrow> c \<Longrightarrow> x = z"
  by simp

lemma if_eqD_False: "(if c then x else y) = z \<Longrightarrow> \<not> c \<Longrightarrow> y = z"
  by simp

lemma case_option_eqD_Some: "(case x of Some r \<Rightarrow> f r | None \<Rightarrow> g) = z \<Longrightarrow> x = Some a \<Longrightarrow> f a = z"
  by simp

lemma case_option_eqD_None: "(case x of Some r \<Rightarrow> f r | None \<Rightarrow> g) = z \<Longrightarrow> x = None \<Longrightarrow> g = z"
  by simp

lemma XParse_cases [consumes 1, case_names dictionary particle adverb knownPrefix compound guessed guessedHyphen]:
  assumes "XParse L G w = Inr r"
  obtains
    (dictionary) "Parse G (ToLower L w) = Inr r" "fst r \<noteq> []"
  | (particle) p where "Parse G (ToLower L w) = Inr p" "fst p = []"
      "hyphen \<in> set (ToLower L w)"
      "particleStrip (XParse L G) (ToLower L w) particlesAfterHyphen = Inr (Some r)"
  | (adverb) p where "Parse G (ToLower L w) = Inr p" "fst p = []"
      "5 \<le> length w" "HasPrefix (ToLower L w) po_hyphen"
      "hyphenAdverb (XParse L G) (ToLower L w) = Inr (Some r)"
  | (knownPrefix) p where "Parse G (ToLower L w) = Inr p" "fst p = []"
      "knownPrefixLoop (XParse L G) (ToLower L w) knownPrefixes p = Inr r" "fst r \<noteq> []"
  | (compound) p acc where "Parse G (ToLower L w) = Inr p" "fst p = []"
      "knownPrefixLoop (XParse L G) (ToLower L w) knownPrefixes p = Inr acc" "fst acc = []"
      "hyphen \<in> set (ToLower L w)" "count_list (ToLower L w) hyphen = 1"
      "hyphenated (XParse L G) (ToLower L w) acc = Inr r" "fst r \<noteq> []"
      "\<not> HasPrefix (ToLower L w) [hyphen]" "\<not> HasSuffix (ToLower L w) [hyphen]"
  | (guessed) p acc where "Parse G (ToLower L w) = Inr p" "fst p = []"
      "knownPrefixLoop (XParse L G) (ToLower L w) knownPrefixes p = Inr acc" "fst acc = []"
      "guessAndPredict G (ToLower L w) acc = Inr r"
  | (guessedHyphen) p acc acc' where "Parse G (ToLower L w) = Inr p" "fst p = []"
      "knownPrefixLoop (XParse L G) (ToLower L w) knownPrefixes p = Inr acc" "fst acc = []"
      "hyphen \<in> set (ToLower L w)"
      "hyphenated (XParse L G) (ToLower L w) acc = Inr acc'" "fst acc' = []"
      "guessAndPredict G (ToLower L w) acc' = Inr r"
proof -
  let ?word = "ToLower L w"
  let ?E = "guessAndPredict G ?word"
  let ?cond = "hyphen \<in> set ?word \<and> count_list ?word hyphen = 1
                 \<and> \<not> HasPrefix ?word [hyphen] \<and> \<not> HasSuffix ?word [hyphen]"
  let ?D = "\<lambda>acc. if ?cond
      then andThen (hyphenated (XParse L G) ?word acc)
             (\<lambda>acc'. if length (fst acc') > 0 then Inr acc' else ?E acc')
      else ?E acc"
  let ?C = "\<lambda>p. andThen (knownPrefixLoop (XParse L G) ?word knownPrefixes p)
      (\<lambda>acc. if length (fst acc) > 0 then Inr acc else ?D acc)"
  let ?B = "\<lambda>p. andThen (if length ?word \<ge> 5 \<and> HasPrefix ?word po_hyphen
                         then hyphenAdverb (XParse L G) ?word else Inr None)
      (\<lambda>adverb. case adverb of Some result \<Rightarrow> Inr result | None \<Rightarrow> ?C p)"
  let ?A = "\<lambda>p. andThen (if hyphen \<in> set ?word
                         then particleStrip (XParse L G) ?word particlesAfterHyphen else Inr None)
      (\<lambda>stripped. case stripped of Some result \<Rightarrow> Inr result | None \<Rightarrow> ?B p)"
  have unfold: "XParse L G w =
      andThen (Parse G ?word) (\<lambda>p. if length (fst p) > 0 then Inr p else ?A p)"
    by (subst XParse.simps) (simp only: Let_def split_def prod.collapse)
  from assms obtain p where p: "Parse G ?word = Inr p"
    and 1: "(if length (fst p) > 0 then Inr p else ?A p) = Inr r"
    unfolding unfold andThen_eq_Inr by blast
  show thesis
  proof (cases "fst p = []")
    case False
    have "(Inr p :: panic + analyses) = Inr r" by (rule if_eqD_True [OF 1])(simp add: False)
    then show thesis using p False dictionary by simp
  next
    case empty: True
    have "?A p = Inr r" by (rule if_eqD_False [OF 1])(simp add: empty)
    then obtain stripped where
      a: "(if hyphen \<in> set ?word then particleStrip (XParse L G) ?word particlesAfterHyphen
           else Inr None) = Inr stripped"
      and 2: "(case stripped of Some result \<Rightarrow> Inr result | None \<Rightarrow> ?B p) = Inr r"
      unfolding andThen_eq_Inr by blast
    show thesis
    proof (cases stripped)
      case (Some res)
      have "(Inr res :: panic + analyses) = Inr r" by (rule case_option_eqD_Some [OF 2]) (rule Some)
      then show thesis using a Some p empty particle by (simp split: if_splits)
    next
      case None
      have "?B p = Inr r" by (rule case_option_eqD_None [OF 2]) (rule None)
      then obtain adv where
        b: "(if length ?word \<ge> 5 \<and> HasPrefix ?word po_hyphen
             then hyphenAdverb (XParse L G) ?word else Inr None) = Inr adv"
        and 3: "(case adv of Some result \<Rightarrow> Inr result | None \<Rightarrow> ?C p) = Inr r"
        unfolding andThen_eq_Inr by blast
      show thesis
      proof (cases adv)
        case (Some res)
        have "(Inr res :: panic + analyses) = Inr r" by (rule case_option_eqD_Some [OF 3]) (rule Some)
        then show thesis
          using b Some p empty adverb by (simp add: ToLower_def split: if_splits)
      next
        case None
        have "?C p = Inr r" by (rule case_option_eqD_None [OF 3]) (rule None)
        then obtain acc where
          c: "knownPrefixLoop (XParse L G) ?word knownPrefixes p = Inr acc"
          and 4: "(if length (fst acc) > 0 then Inr acc else ?D acc) = Inr r"
          unfolding andThen_eq_Inr by blast
        show thesis
        proof (cases "fst acc = []")
          case False
          have "(Inr acc :: panic + analyses) = Inr r" by (rule if_eqD_True [OF 4])(simp add: False)
          then show thesis using c False p empty knownPrefix by simp
        next
          case accEmpty: True
          have d: "?D acc = Inr r" by (rule if_eqD_False [OF 4])(simp add: accEmpty)
          show thesis
          proof (cases ?cond)
            case False
            have "?E acc = Inr r" by (rule if_eqD_False [OF d]) (rule False)
            then show thesis using guessed p empty c accEmpty by blast
          next
            case True
            then have "andThen (hyphenated (XParse L G) ?word acc)
               (\<lambda>acc'. if length (fst acc') > 0 then Inr acc' else ?E acc') = Inr r"
              by (intro if_eqD_True [OF d])
            then obtain acc' where
              h: "hyphenated (XParse L G) ?word acc = Inr acc'"
              and 5: "(if length (fst acc') > 0 then Inr acc' else ?E acc') = Inr r"
              unfolding andThen_eq_Inr by blast
            show thesis
            proof (cases "fst acc' = []")
              case False
              have "(Inr acc' :: panic + analyses) = Inr r" by (rule if_eqD_True [OF 5])(simp add: False)
              then show thesis using compound p empty c accEmpty True h False by simp
            next
              case True': True
              have "?E acc' = Inr r" by (rule if_eqD_False [OF 5])(simp add: True')
              then show thesis using guessedHyphen p empty c accEmpty True h True' by blast
            qed
          qed
        qed
      qed
    qed
  qed
qed

section \<open>Aligned result lists\<close>

lemma sameLength_simps:
  "sameLength (ws, ns, ts) = (length ns = length ws \<and> length ts = length ws)"
  by (simp add: sameLength_def)

lemma sameLength_columns: "sameLength (columns rs)"
  by (simp add: columns_def sameLength_def)

lemma Parse_sameLength: "Parse G w = Inr r \<Longrightarrow> sameLength r"
proof -
  assume a: "Parse G w = Inr r"
  then obtain pd wd where g: "probDAWG G = Some pd" "wordsDAWG G = Some wd"
    by (auto simp: Parse_def split: option.splits)
  then obtain c where c: "candidateSet G pd wd w = Inr c"
    using a by (auto simp: Parse_def andThen_eq_Inr)
  obtain ws ns ts ps nz where c': "c = ((ws, ns, ts, ps), nz)"
    by (metis prod.exhaust)
  have r: "r = (if nz then sort_Stable (ws, ns, ts, ps) else (ws, ns, ts))"
    using Parse_unfold [OF g c [unfolded c']] a by simp
  have "length ns = length ws" "length ts = length ws"
    using candidateSet_rows(1-3) [OF c [unfolded c']] by simp_all
  then show ?thesis
    unfolding r by (simp add: sort_Stable_def sameLength_columns sameLength_simps)
qed

lemma appendSuffix_eq_Inr:
  "appendSuffix ws ns s = Inr r \<longleftrightarrow>
     length ws \<le> length ns
     \<and> r = (map (\<lambda>w. w @ s) ws, map (\<lambda>n. n @ s) (take (length ws) ns) @ drop (length ws) ns)"
  by (auto simp: appendSuffix_def)

lemma particleStrip_sameLength:
  assumes "\<And>s r. s \<in> set ps \<Longrightarrow> HasSuffix word s \<Longrightarrow> rec (TrimSuffix word s) = Inr r \<Longrightarrow> sameLength r"
    and "particleStrip rec word ps = Inr (Some r)"
  shows "sameLength r"
  using assms
proof (induction ps)
  case Nil
  then show ?case by simp
next
  case (Cons s ps)
  have ih: "sameLength r" if "particleStrip rec word ps = Inr (Some r)"
  proof (rule Cons.IH [OF _ that])
    fix s' r' assume "s' \<in> set ps" "HasSuffix word s'" "rec (TrimSuffix word s') = Inr r'"
    then show "sameLength r'" using Cons.prems(1) [of s' r'] by simp
  qed
  show ?case
  proof (cases "HasSuffix word s")
    case False
    then show ?thesis using Cons.prems(2) ih by simp
  next
    case True
    then obtain ws ns ts where rec: "rec (TrimSuffix word s) = Inr (ws, ns, ts)"
      using Cons.prems(2) by (auto simp: andThen_eq_Inr)
    have sl: "sameLength (ws, ns, ts)"
      using Cons.prems(1) [OF _ True rec] by simp
    show ?thesis
    proof (cases "ws = []")
      case True
      then show ?thesis using Cons.prems(2) ih \<open>HasSuffix word s\<close> rec by simp
    next
      case False
      then show ?thesis
        using Cons.prems(2) \<open>HasSuffix word s\<close> rec sl
        by (auto simp: andThen_eq_Inr appendSuffix_eq_Inr sameLength_simps)
    qed
  qed
qed

lemma adverbLoop_sameLength: "adverbLoop words ts i = Inr (Some r) \<Longrightarrow> sameLength r"
  by (induction ts arbitrary: i)
    (auto simp: andThen_eq_Inr Let_def sameLength_simps split: if_splits)

lemma hyphenAdverb_sameLength: "hyphenAdverb rec word = Inr (Some r) \<Longrightarrow> sameLength r"
  by (auto simp: hyphenAdverb_def andThen_eq_Inr dest: adverbLoop_sameLength)

lemma appendProductive_sameLength:
  "appendProductive prefix ws ns ts i acc = Inr acc' \<Longrightarrow> sameLength acc \<Longrightarrow> sameLength acc'"
proof (induction ts arbitrary: i acc)
  case Nil
  then show ?case by simp
next
  case (Cons t ts)
  show ?case
  proof (cases "productive t")
    case False
    then show ?thesis using Cons by simp
  next
    case True
    then obtain w n where
      "appendProductive prefix ws ns ts (Suc i)
         (fst acc @ [prefix @ w], fst (snd acc) @ [prefix @ n], snd (snd acc) @ [t]) = Inr acc'"
      using Cons.prems(1) by (auto simp: andThen_eq_Inr)
    from Cons.IH [OF this] show ?thesis
      using Cons.prems(2) by (simp add: sameLength_def)
  qed
qed

lemma knownPrefixLoop_sameLength:
  "knownPrefixLoop rec word ps acc = Inr acc' \<Longrightarrow> sameLength acc \<Longrightarrow> sameLength acc'"
proof (induction ps arbitrary: acc)
  case Nil
  then show ?case by simp
next
  case (Cons p ps)
  show ?case
  proof (cases "HasPrefix word p \<and> \<not> length (TrimPrefix word p) < 3")
    case False
    then have "knownPrefixLoop rec word (p # ps) acc = knownPrefixLoop rec word ps acc"
      by (auto simp: Let_def)
    then show ?thesis using Cons by simp
  next
    case True
    then obtain ws ns ts a where
      1: "appendProductive p ws ns ts 0 acc = Inr a"
      and 2: "knownPrefixLoop rec word ps a = Inr acc'"
      using Cons.prems(1) by (auto simp: Let_def andThen_eq_Inr)
    show ?thesis
      using Cons.IH [OF 2] appendProductive_sameLength [OF 1 Cons.prems(2)] by simp
  qed
qed

lemma sameLength_addCompounds: "sameLength acc \<Longrightarrow> sameLength (addCompounds l ltags r ps acc)"
  by (simp add: addCompounds_def sameLength_def)

lemma fixedLeft_sameLength:
  "fixedLeft left r ts i acc = Inr acc' \<Longrightarrow> sameLength acc \<Longrightarrow> sameLength acc'"
proof (induction ts arbitrary: i acc)
  case Nil
  then show ?case by simp
next
  case (Cons t ts)
  then obtain rw rn where
    "fixedLeft left r ts (Suc i)
       (fst acc @ [left @ [hyphen] @ rw], fst (snd acc) @ [left @ [hyphen] @ rn],
        snd (snd acc) @ [t]) = Inr acc'"
    by (auto simp: andThen_eq_Inr)
  from Cons.IH [OF this] show ?case
    using Cons.prems(2) by (simp add: sameLength_def)
qed

lemma hyphenated_sameLength:
  assumes "hyphenated rec word acc = Inr acc'" and "sameLength acc"
  shows "sameLength acc'"
proof -
  obtain lws lns lts rws rns rts where
    l: "rec (leftPart word) = Inr (lws, lns, lts)" and r: "rec (rightPart word) = Inr (rws, rns, rts)"
    using assms(1) by (auto simp: hyphenated_def Let_def andThen_eq_Inr)
  show ?thesis
    using hyphenated_unfold [OF l r assms(1)] assms(2)
    by (auto dest!: fixedLeft_sameLength intro: sameLength_addCompounds)
qed

lemma unknownPrefixLoop_sameLength:
  "unknownPrefixLoop G splits acc = Inr acc' \<Longrightarrow> sameLength acc \<Longrightarrow> sameLength acc'"
proof (induction splits arbitrary: acc)
  case Nil
  then show ?case by simp
next
  case (Cons sp splits)
  then obtain ws ns ts a where
    1: "appendProductive (fst sp) ws ns ts 0 acc = Inr a"
    and 2: "unknownPrefixLoop G splits a = Inr acc'"
    by (auto simp: andThen_eq_Inr)
  show ?case
    using Cons.IH [OF 2] appendProductive_sameLength [OF 1 Cons.prems(2)] by simp
qed

lemma seen_total:
  "i + length ts \<le> length words \<Longrightarrow> i + length ts \<le> length norms \<Longrightarrow>
     \<exists>b. seen words norms ts i word nrm tag = Inr b"
  by (induction ts arbitrary: i) (auto simp: index_def)

lemma predictValues_Cons_cases [consumes 1, case_names skip dup add]:
  assumes "predictValues G wordStart key (v # vs) st = Inr st'"
  obtains
    (skip) "predictValues G wordStart key vs st = Inr st'"
  | (dup) tc where "st' = (fst st, tc)"
  | (add) tag nrm tc where "productive tag"
      "predictValues G wordStart key vs
         ((fst (fst st) @ [wordStart @ key], fst (snd (fst st)) @ [nrm],
           snd (snd (fst st)) @ [tag]), tc) = Inr st'"
  using assms by (auto simp: andThen_eq_Inr Let_def split: if_splits)

lemma predictValues_sameLength:
  "predictValues G wordStart key vs st = Inr st' \<Longrightarrow> sameLength (fst st) \<Longrightarrow> sameLength (fst st')"
proof (induction vs arbitrary: st)
  case Nil
  then show ?case by simp
next
  case (Cons v vs)
  from Cons.prems(1) show ?case
  proof (cases rule: predictValues_Cons_cases)
    case skip
    then show ?thesis using Cons.IH Cons.prems(2) by simp
  next
    case (dup tc)
    then show ?thesis using Cons.prems(2) by simp
  next
    case (add tag nrm tc)
    from Cons.IH [OF add(2)] show ?thesis
      using Cons.prems(2) by (simp add: sameLength_def)
  qed
qed

lemma predictItems_sameLength:
  "predictItems G wordStart items st = Inr st' \<Longrightarrow> sameLength (fst st) \<Longrightarrow> sameLength (fst st')"
proof (induction items arbitrary: st)
  case Nil
  then show ?case by simp
next
  case (Cons it items)
  then obtain a where 1: "predictValues G wordStart (fst it) (snd it) st = Inr a"
    and 2: "predictItems G wordStart items a = Inr st'"
    by (auto simp: andThen_eq_Inr)
  show ?case
    using Cons.IH [OF 2] predictValues_sameLength [OF 1 Cons.prems(2)] by simp
qed

lemma predictSplits_sameLength:
  "predictSplits G d sps st = Inr st' \<Longrightarrow> sameLength (fst st) \<Longrightarrow> sameLength (fst st')"
proof (induction sps arbitrary: st)
  case Nil
  then show ?case by simp
next
  case (Cons sp sps)
  then obtain a where 1: "predictItems G (fst sp) (similarItems d (snd sp)) st = Inr a"
    and 2: "(if snd a > 1 then Inr a else predictSplits G d sps a) = Inr st'"
    by (auto simp: andThen_eq_Inr)
  have a: "sameLength (fst a)"
    using predictItems_sameLength [OF 1 Cons.prems(2)] .
  show ?case
    using 2 a Cons.IH [of a] by (auto split: if_splits)
qed

lemma predictPrefixes_sameLength:
  "predictPrefixes G word splits ps k acc = Inr acc' \<Longrightarrow> sameLength acc \<Longrightarrow> sameLength acc'"
proof (induction ps arbitrary: k acc)
  case Nil
  then show ?case by simp
next
  case (Cons p ps)
  show ?case
  proof (cases "HasPrefix word p")
    case False
    then show ?thesis using Cons by simp
  next
    case True
    then obtain d st where
      1: "predictSplits G d (rev splits) (acc, 0) = Inr st"
      and 2: "predictPrefixes G word splits ps (Suc k) (fst st) = Inr acc'"
      using Cons.prems(1) by (auto simp: andThen_eq_Inr)
    show ?thesis
      using Cons.IH [OF 2] predictSplits_sameLength [OF 1] Cons.prems(2) by simp
  qed
qed

lemma guessAndPredict_sameLength:
  "guessAndPredict G word acc = Inr acc' \<Longrightarrow> sameLength acc \<Longrightarrow> sameLength acc'"
  by (auto simp: guessAndPredict_def andThen_eq_Inr split: if_splits
      dest: unknownPrefixLoop_sameLength predictPrefixes_sameLength)

lemma XParse_sameLength: "XParse L G w = Inr r \<Longrightarrow> sameLength r"
proof (induction "length w" arbitrary: w r rule: less_induct)
  case less
  note ih = less.hyps
  from less.prems show ?case
  proof (cases rule: XParse_cases)
    case dictionary
    then show ?thesis by (simp add: Parse_sameLength)
  next
    case (particle p)
    show ?thesis
    proof (rule particleStrip_sameLength [OF _ particle(4)])
      fix s r' assume s: "s \<in> set particlesAfterHyphen" "HasSuffix (ToLower L w) s"
        and r': "XParse L G (TrimSuffix (ToLower L w) s) = Inr r'"
      have "length (TrimSuffix (ToLower L w) s) < length w"
        using length_TrimSuffix [OF s(2) particles_nonempty [OF s(1)]] by (simp add: ToLower_def)
      then show "sameLength r'" using ih r' by simp
    qed
  next
    case (adverb p)
    then show ?thesis by (simp add: hyphenAdverb_sameLength)
  next
    case (knownPrefix p)
    then show ?thesis using knownPrefixLoop_sameLength Parse_sameLength by blast
  next
    case (compound p acc)
    then show ?thesis
      using hyphenated_sameLength knownPrefixLoop_sameLength Parse_sameLength by blast
  next
    case (guessed p acc)
    then show ?thesis
      using guessAndPredict_sameLength knownPrefixLoop_sameLength Parse_sameLength by blast
  next
    case (guessedHyphen p acc acc')
    then show ?thesis
      using guessAndPredict_sameLength hyphenated_sameLength knownPrefixLoop_sameLength
        Parse_sameLength by blast
  qed
qed

text \<open>Every loop of the two analyzers appends whole rows.\<close>

lemma aligned_Nil [simp]: "aligned P ([], [], [])"
  by (simp add: aligned_def sameLength_def triples_def)

lemma aligned_sameLength: "aligned P r \<Longrightarrow> sameLength r"
  by (simp add: aligned_def)

lemma aligned_snoc:
  "aligned P acc \<Longrightarrow> P (w, n, t) \<Longrightarrow>
     aligned P (fst acc @ [w], fst (snd acc) @ [n], snd (snd acc) @ [t])"
  by (simp add: aligned_def sameLength_def triples_def)

lemma aligned_iff:
  "aligned P (ws, ns, ts) \<longleftrightarrow>
     length ns = length ws \<and> length ts = length ws \<and> (\<forall>i<length ws. P (ws ! i, ns ! i, ts ! i))"
  by (auto simp: aligned_def sameLength_def triples_def list_all_length)

lemma aligned_mono: "aligned P r \<Longrightarrow> (\<And>x. P x \<Longrightarrow> Q x) \<Longrightarrow> aligned Q r"
  by (auto simp: aligned_def list_all_iff)

lemma aligned_empty: "sameLength r \<Longrightarrow> fst r = [] \<Longrightarrow> aligned Q r"
  by (cases r) (auto simp: aligned_iff sameLength_simps)


lemma triples_columns:
  "triples (columns rs) = map (\<lambda>r. (fst r, fst (snd r), fst (snd (snd r)))) rs"
  by (simp add: triples_def columns_def zip_columns)

lemma emitted_decoded:
  "(\<lambda>r. (fst r, fst (snd r), fst (snd (snd r)))) (emitted G pd word kv) = decoded G 0 (fst kv) (snd kv)"
  unfolding emitted_def decoded_def Let_def add_0_left by simp

lemma Parse_aligned:
  assumes "Parse G word = Inr r"
  shows "aligned (dictionaryRow G word) r"
proof -
  obtain pd wd where g: "probDAWG G = Some pd" "wordsDAWG G = Some wd"
    using assms by (auto simp: Parse_def split: option.splits)
  then obtain c where c: "candidateSet G pd wd word = Inr c"
    using assms by (auto simp: Parse_def andThen_eq_Inr)
  obtain ws ns ts ps nz where c': "c = ((ws, ns, ts, ps), nz)"
    by (metis prod.exhaust)
  define R where "R = map (emitted G pd word) (payloads (similarItems wd word))"
  note cs = candidateSet_rows [OF c [unfolded c'], folded R_def]
  have r: "r = (if nz then sort_Stable (ws, ns, ts, ps) else (ws, ns, ts))"
    using Parse_unfold [OF g c [unfolded c']] assms by simp
  have row: "dictionaryRow G word (fst x, fst (snd x), fst (snd (snd x)))" if "x \<in> set R" for x
  proof -
    from that obtain kv where kv: "kv \<in> set (payloads (similarItems wd word))"
      and x: "x = emitted G pd word kv"
      by (auto simp: R_def)
    from kv obtain it where "it \<in> set (similarItems wd word)" "snd kv \<in> set (snd it)" "fst kv = fst it"
      by (auto simp: payloads_def)
    then show ?thesis
      unfolding x emitted_decoded dictionaryRow_def using g(2)
      by (intro exI [of _ wd] exI [of _ it] exI [of _ "snd kv"]) simp
  qed
  have "\<exists>S. r = columns S \<and> set S = set R"
  proof (cases nz)
    case True
    then have "r = columns (sort_key (\<lambda>r. - snd (snd (snd r))) R)"
      unfolding r sort_Stable_def cs(6) by simp
    then show ?thesis by (intro exI [of _ "sort_key (\<lambda>r. - snd (snd (snd r))) R"]) simp
  next
    case False
    then have "r = columns R" unfolding r using cs(1-3) by (simp add: columns_def)
    then show ?thesis by blast
  qed
  then obtain S where S: "r = columns S" "set S = set R" by blast
  show ?thesis
    unfolding S(1) aligned_def triples_columns
    using row S(2) by (simp add: sameLength_columns list_all_iff)
qed

lemma particleStrip_aligned:
  assumes "particleStrip rec word ps = Inr (Some r)"
    and "\<And>s r. s \<in> set ps \<Longrightarrow> HasSuffix word s \<Longrightarrow> rec (TrimSuffix word s) = Inr r \<Longrightarrow>
           aligned (P s) r"
    and "\<And>s w n t. s \<in> set ps \<Longrightarrow> HasSuffix word s \<Longrightarrow> P s (w, n, t) \<Longrightarrow> Q (w @ s, n @ s, t)"
  shows "aligned Q r"
  using assms
proof (induction ps)
  case Nil
  then show ?case by simp
next
  case (Cons s ps)
  have ih: "aligned Q r" if "particleStrip rec word ps = Inr (Some r)"
  proof (rule Cons.IH [OF that])
    fix s' r' assume "s' \<in> set ps" "HasSuffix word s'" "rec (TrimSuffix word s') = Inr r'"
    then show "aligned (P s') r'" using Cons.prems(2) [of s' r'] by simp
  next
    fix s' w n t assume "s' \<in> set ps" "HasSuffix word s'" "P s' (w, n, t)"
    then show "Q (w @ s', n @ s', t)" using Cons.prems(3) [of s' w n t] by simp
  qed
  show ?case
  proof (cases "HasSuffix word s")
    case False
    then show ?thesis using Cons.prems(1) ih by simp
  next
    case True
    then obtain ws ns ts where rec: "rec (TrimSuffix word s) = Inr (ws, ns, ts)"
      using Cons.prems(1) by (auto simp: andThen_eq_Inr)
    have al: "aligned (P s) (ws, ns, ts)"
      using Cons.prems(2) [OF _ True rec] by simp
    show ?thesis
    proof (cases "ws = []")
      case True
      then show ?thesis using Cons.prems(1) ih \<open>HasSuffix word s\<close> rec by simp
    next
      case False
      then have r: "r = (map (\<lambda>w. w @ s) ws, map (\<lambda>n. n @ s) ns, ts)"
        using Cons.prems(1) \<open>HasSuffix word s\<close> rec al
        by (auto simp: andThen_eq_Inr appendSuffix_eq_Inr aligned_iff)
      have "Q (w @ s, n @ s, t)" if "P s (w, n, t)" for w n t
        using Cons.prems(3) [of s w n t] that True by simp
      then show ?thesis using al unfolding r by (simp add: aligned_iff)
    qed
  qed
qed

lemma adverbLoop_aligned:
  assumes "adverbLoop words tsr i = Inr (Some r)"
    and "\<And>j. j < length tsr \<Longrightarrow> i + j < length words \<Longrightarrow> HasPrefix (tsr ! j) (str ''ADJF'') \<Longrightarrow>
           Contains (tsr ! j) (str ''sing,datv'') \<Longrightarrow>
           Q (po_hyphen @ words ! (i + j), po_hyphen @ words ! (i + j), str ''ADVB'')"
  shows "aligned Q r"
  using assms
proof (induction tsr arbitrary: i)
  case Nil
  then show ?case by simp
next
  case (Cons t ts)
  show ?case
  proof (cases "\<not> HasPrefix t (str ''ADJF'') \<or> \<not> Contains t (str ''sing,datv'')")
    case True
    then have 1: "adverbLoop words ts (Suc i) = Inr (Some r)" using Cons.prems(1) by auto
    show ?thesis
    proof (rule Cons.IH [OF 1])
      fix j assume "j < length ts" "Suc i + j < length words" "HasPrefix (ts ! j) (str ''ADJF'')"
        "Contains (ts ! j) (str ''sing,datv'')"
      then show "Q (po_hyphen @ words ! (Suc i + j), po_hyphen @ words ! (Suc i + j), str ''ADVB'')"
        using Cons.prems(2) [of "Suc j"] by simp
    qed
  next
    case False
    then have i: "i < length words"
      and r: "r = ([po_hyphen @ words ! i], [po_hyphen @ words ! i], [str ''ADVB''])"
      using Cons.prems(1) by (auto simp: andThen_eq_Inr index_eq_Inr Let_def)
    have "Q (po_hyphen @ words ! i, po_hyphen @ words ! i, str ''ADVB'')"
      using Cons.prems(2) [of 0] False i by simp
    then show ?thesis unfolding r by (simp add: aligned_iff)
  qed
qed

lemma hyphenAdverb_aligned:
  assumes "hyphenAdverb rec word = Inr (Some r)"
    and "\<And>r. rec (drop 3 word) = Inr r \<Longrightarrow> aligned P r"
    and "\<And>w n t. P (w, n, t) \<Longrightarrow> HasPrefix t (str ''ADJF'') \<Longrightarrow> Contains t (str ''sing,datv'') \<Longrightarrow>
           Q (po_hyphen @ w, po_hyphen @ w, str ''ADVB'')"
  shows "aligned Q r"
proof -
  obtain ws ns ts where rec: "rec (drop 3 word) = Inr (ws, ns, ts)"
    and a: "adverbLoop ws ts 0 = Inr (Some r)"
    using assms(1) by (auto simp: hyphenAdverb_def andThen_eq_Inr)
  have al: "aligned P (ws, ns, ts)" using assms(2) [OF rec] .
  show ?thesis
  proof (rule adverbLoop_aligned [OF a])
    fix j assume j: "j < length ts" "0 + j < length ws" "HasPrefix (ts ! j) (str ''ADJF'')"
      "Contains (ts ! j) (str ''sing,datv'')"
    have "P (ws ! j, ns ! j, ts ! j)" using al j(2) by (simp add: aligned_iff)
    then show "Q (po_hyphen @ ws ! (0 + j), po_hyphen @ ws ! (0 + j), str ''ADVB'')"
      using assms(3) j(3,4) by simp
  qed
qed

lemma appendProductive_rows:
  assumes "appendProductive prefix ws ns tsr i acc = Inr acc'" and "aligned Q acc"
    and "\<And>j. j < length tsr \<Longrightarrow> productive (tsr ! j) \<Longrightarrow> i + j < length ws \<Longrightarrow>
           i + j < length ns \<Longrightarrow> Q (prefix @ ws ! (i + j), prefix @ ns ! (i + j), tsr ! j)"
  shows "aligned Q acc'"
  using assms
proof (induction tsr arbitrary: i acc)
  case Nil
  then show ?case by simp
next
  case (Cons t ts)
  have step: "Q (prefix @ ws ! (Suc i + j), prefix @ ns ! (Suc i + j), ts ! j)"
    if "j < length ts" "productive (ts ! j)" "Suc i + j < length ws" "Suc i + j < length ns" for j
    using Cons.prems(3) [of "Suc j"] that by simp
  show ?case
  proof (cases "productive t")
    case False
    then have "appendProductive prefix ws ns ts (Suc i) acc = Inr acc'"
      using Cons.prems(1) by simp
    then show ?thesis using Cons.prems(2) step by (rule Cons.IH)
  next
    case True
    then have i: "i < length ws" "i < length ns" and
      1: "appendProductive prefix ws ns ts (Suc i)
         (fst acc @ [prefix @ ws ! i], fst (snd acc) @ [prefix @ ns ! i], snd (snd acc) @ [t]) = Inr acc'"
      using Cons.prems(1) by (auto simp: andThen_eq_Inr index_eq_Inr)
    have "Q (prefix @ ws ! i, prefix @ ns ! i, t)"
      using Cons.prems(3) [of 0] True i by simp
    then have "aligned Q (fst acc @ [prefix @ ws ! i], fst (snd acc) @ [prefix @ ns ! i], snd (snd acc) @ [t])"
      using Cons.prems(2) by (intro aligned_snoc)
    with 1 show ?thesis using step by (rule Cons.IH)
  qed
qed

lemma appendProductive_aligned:
  assumes "appendProductive prefix ws ns ts 0 acc = Inr acc'" and "aligned Q acc"
    and "aligned P (ws, ns, ts)"
    and "\<And>w n t. P (w, n, t) \<Longrightarrow> productive t \<Longrightarrow> Q (prefix @ w, prefix @ n, t)"
  shows "aligned Q acc'"
proof (rule appendProductive_rows [OF assms(1,2)])
  fix j assume j: "j < length ts" "productive (ts ! j)" "0 + j < length ws"
  then have "P (ws ! j, ns ! j, ts ! j)" using assms(3) by (simp add: aligned_iff)
  then show "Q (prefix @ ws ! (0 + j), prefix @ ns ! (0 + j), ts ! j)"
    using assms(4) j(2) by simp
qed

lemma knownPrefixLoop_aligned:
  assumes "knownPrefixLoop rec word ps acc = Inr acc'" and "aligned Q acc"
    and "\<And>p r. p \<in> set ps \<Longrightarrow> HasPrefix word p \<Longrightarrow> 3 \<le> length (TrimPrefix word p) \<Longrightarrow>
           rec (TrimPrefix word p) = Inr r \<Longrightarrow> aligned (P p) r"
    and "\<And>p w n t. p \<in> set ps \<Longrightarrow> HasPrefix word p \<Longrightarrow> 3 \<le> length (TrimPrefix word p) \<Longrightarrow>
           P p (w, n, t) \<Longrightarrow> productive t \<Longrightarrow> Q (p @ w, p @ n, t)"
  shows "aligned Q acc'"
  using assms
proof (induction ps arbitrary: acc)
  case Nil
  then show ?case by simp
next
  case (Cons p ps)
  have ih: "aligned Q acc'" if "knownPrefixLoop rec word ps a = Inr acc'" "aligned Q a" for a
  proof (rule Cons.IH [OF that])
    fix p' r assume "p' \<in> set ps" "HasPrefix word p'" "3 \<le> length (TrimPrefix word p')"
      "rec (TrimPrefix word p') = Inr r"
    then show "aligned (P p') r" using Cons.prems(3) [of p' r] by simp
  next
    fix p' w n t assume "p' \<in> set ps" "HasPrefix word p'" "3 \<le> length (TrimPrefix word p')"
      "P p' (w, n, t)" "productive t"
    then show "Q (p' @ w, p' @ n, t)" using Cons.prems(4) [of p' w n t] by simp
  qed
  show ?case
  proof (cases "HasPrefix word p \<and> \<not> length (TrimPrefix word p) < 3")
    case False
    then have "knownPrefixLoop rec word (p # ps) acc = knownPrefixLoop rec word ps acc"
      by (auto simp: Let_def)
    then show ?thesis using Cons.prems(1,2) ih by simp
  next
    case True
    then obtain ws ns ts a where
      0: "rec (TrimPrefix word p) = Inr (ws, ns, ts)"
      and 1: "appendProductive p ws ns ts 0 acc = Inr a"
      and 2: "knownPrefixLoop rec word ps a = Inr acc'"
      using Cons.prems(1) by (auto simp: Let_def andThen_eq_Inr)
    have al: "aligned (P p) (ws, ns, ts)"
      using Cons.prems(3) [OF _ _ _ 0] True by simp
    have "aligned Q a"
      using 1 Cons.prems(2) al
    proof (rule appendProductive_aligned)
      fix w n t assume "P p (w, n, t)" "productive t"
      then show "Q (p @ w, p @ n, t)" using Cons.prems(4) [of p w n t] True by simp
    qed
    with 2 show ?thesis by (rule ih)
  qed
qed


lemma agreeingPairs_iff:
  "(i, j) \<in> set (agreeingPairs lts rts) \<longleftrightarrow>
     i < length lts \<and> j < length rts \<and> similarityFeatures (lts ! i) = similarityFeatures (rts ! j)"
  by (auto simp: agreeingPairs_def)

lemma addCompounds_aligned:
  assumes "aligned Q acc"
    and "\<And>i j. (i, j) \<in> set pairs \<Longrightarrow>
           Q (fst l ! i @ [hyphen] @ fst r ! j, snd l ! i @ [hyphen] @ snd r ! j, ltags ! i)"
  shows "aligned Q (addCompounds l ltags r pairs acc)"
  using assms
proof (induction pairs rule: rev_induct)
  case Nil
  then show ?case by (simp add: addCompounds_def)
next
  case (snoc x pairs)
  obtain i j where x: "x = (i, j)" by (cases x)
  have "aligned Q (addCompounds l ltags r pairs acc)"
    using snoc by simp
  moreover have "Q (fst l ! i @ [hyphen] @ fst r ! j, snd l ! i @ [hyphen] @ snd r ! j, ltags ! i)"
    using snoc.prems(2) [of i j] x by simp
  ultimately have "aligned Q
     (fst (addCompounds l ltags r pairs acc) @ [fst l ! i @ [hyphen] @ fst r ! j],
      fst (snd (addCompounds l ltags r pairs acc)) @ [snd l ! i @ [hyphen] @ snd r ! j],
      snd (snd (addCompounds l ltags r pairs acc)) @ [ltags ! i])"
    by (rule aligned_snoc)
  then show ?case by (simp add: addCompounds_def x)
qed

lemma fixedLeft_rows:
  assumes "fixedLeft left r tsr i acc = Inr acc'" and "aligned Q acc"
    and "\<And>j. j < length tsr \<Longrightarrow> i + j < length (fst r) \<Longrightarrow> i + j < length (snd r) \<Longrightarrow>
           Q (left @ [hyphen] @ fst r ! (i + j), left @ [hyphen] @ snd r ! (i + j), tsr ! j)"
  shows "aligned Q acc'"
  using assms
proof (induction tsr arbitrary: i acc)
  case Nil
  then show ?case by simp
next
  case (Cons t ts)
  have step: "Q (left @ [hyphen] @ fst r ! (Suc i + j), left @ [hyphen] @ snd r ! (Suc i + j), ts ! j)"
    if "j < length ts" "Suc i + j < length (fst r)" "Suc i + j < length (snd r)" for j
    using Cons.prems(3) [of "Suc j"] that by simp
  have i: "i < length (fst r)" "i < length (snd r)" and
    1: "fixedLeft left r ts (Suc i)
       (fst acc @ [left @ [hyphen] @ fst r ! i], fst (snd acc) @ [left @ [hyphen] @ snd r ! i],
        snd (snd acc) @ [t]) = Inr acc'"
    using Cons.prems(1) by (auto simp: andThen_eq_Inr index_eq_Inr)
  have "Q (left @ [hyphen] @ fst r ! i, left @ [hyphen] @ snd r ! i, t)"
    using Cons.prems(3) [of 0] i by simp
  then have "aligned Q (fst acc @ [left @ [hyphen] @ fst r ! i],
      fst (snd acc) @ [left @ [hyphen] @ snd r ! i], snd (snd acc) @ [t])"
    using Cons.prems(2) by (intro aligned_snoc)
  with 1 show ?case using step by (rule Cons.IH)
qed

lemma hyphenated_aligned:
  assumes "hyphenated rec word acc = Inr acc'" and "aligned Q acc"
    and "\<And>r. rec (leftPart word) = Inr r \<Longrightarrow> aligned Pl r"
    and "\<And>r. rec (rightPart word) = Inr r \<Longrightarrow> aligned Pr r"
    and "\<And>lword lnorm ltag rword rnorm rtag.
           Pl (lword, lnorm, ltag) \<Longrightarrow> Pr (rword, rnorm, rtag) \<Longrightarrow>
           similarityFeatures ltag = similarityFeatures rtag \<Longrightarrow>
           Q (lword @ [hyphen] @ rword, lnorm @ [hyphen] @ rnorm, ltag)"
    and "\<And>rword rnorm rtag. Pr (rword, rnorm, rtag) \<Longrightarrow>
           Q (leftPart word @ [hyphen] @ rword, leftPart word @ [hyphen] @ rnorm, rtag)"
  shows "aligned Q acc'"
proof -
  obtain lws lns lts rws rns rts where
    l: "rec (leftPart word) = Inr (lws, lns, lts)" and r: "rec (rightPart word) = Inr (rws, rns, rts)"
    using assms(1) by (auto simp: hyphenated_def Let_def andThen_eq_Inr)
  note al = assms(3) [OF l, unfolded aligned_iff] and ar = assms(4) [OF r, unfolded aligned_iff]
  have mid: "aligned Q (addCompounds (lws, lns) lts (rws, rns) (agreeingPairs lts rts) acc)"
    using assms(2)
  proof (rule addCompounds_aligned)
    fix i j assume "(i, j) \<in> set (agreeingPairs lts rts)"
    then have ij: "i < length lts" "j < length rts"
      "similarityFeatures (lts ! i) = similarityFeatures (rts ! j)"
      by (simp_all add: agreeingPairs_iff)
    have "Pl (lws ! i, lns ! i, lts ! i)" "Pr (rws ! j, rns ! j, rts ! j)"
      using al ar ij(1,2) by simp_all
    then show "Q (fst (lws, lns) ! i @ [hyphen] @ fst (rws, rns) ! j,
        snd (lws, lns) ! i @ [hyphen] @ snd (rws, rns) ! j, lts ! i)"
      using assms(5) ij(3) by simp
  qed
  show ?thesis
  proof (rule fixedLeft_rows [OF hyphenated_unfold [OF l r assms(1)] mid])
    fix j assume "j < length rts"
    then have "Pr (rws ! j, rns ! j, rts ! j)" using ar by simp
    then show "Q (leftPart word @ [hyphen] @ fst (rws, rns) ! (0 + j),
        leftPart word @ [hyphen] @ snd (rws, rns) ! (0 + j), rts ! j)"
      using assms(6) by simp
  qed
qed

lemma unknownPrefixLoop_aligned:
  assumes "unknownPrefixLoop G splits acc = Inr acc'" and "aligned Q acc"
    and "\<And>sp w n t. sp \<in> set splits \<Longrightarrow> dictionaryRow G (snd sp) (w, n, t) \<Longrightarrow> productive t \<Longrightarrow>
           Q (fst sp @ w, fst sp @ n, t)"
  shows "aligned Q acc'"
  using assms
proof (induction splits arbitrary: acc)
  case Nil
  then show ?case by simp
next
  case (Cons sp splits)
  then obtain ws ns ts a where
    0: "Parse G (snd sp) = Inr (ws, ns, ts)"
    and 1: "appendProductive (fst sp) ws ns ts 0 acc = Inr a"
    and 2: "unknownPrefixLoop G splits a = Inr acc'"
    by (auto simp: andThen_eq_Inr)
  have "aligned Q a"
    using 1 Cons.prems(2) Parse_aligned [OF 0]
  proof (rule appendProductive_aligned)
    fix w n t assume "dictionaryRow G (snd sp) (w, n, t)" "productive t"
    then show "Q (fst sp @ w, fst sp @ n, t)" using Cons.prems(3) [of sp w n t] by simp
  qed
  with 2 show ?case
  proof (rule Cons.IH)
    fix sp' w n t assume "sp' \<in> set splits" "dictionaryRow G (snd sp') (w, n, t)" "productive t"
    then show "Q (fst sp' @ w, fst sp' @ n, t)" using Cons.prems(3) [of sp' w n t] by simp
  qed
qed

lemma predictValues_Cons_decoded [consumes 1, case_names skip dup add]:
  assumes "predictValues G wordStart key (v # vs) st = Inr st'"
  obtains
    (skip) "predictValues G wordStart key vs st = Inr st'"
  | (dup) tc where "st' = (fst st, tc)"
  | (add) tc where "productive (snd (snd (decoded G 2 (wordStart @ key) v)))"
      "predictValues G wordStart key vs
         ((fst (fst st) @ [fst (decoded G 2 (wordStart @ key) v)],
           fst (snd (fst st)) @ [fst (snd (decoded G 2 (wordStart @ key) v))],
           snd (snd (fst st)) @ [snd (snd (decoded G 2 (wordStart @ key) v))]), tc) = Inr st'"
proof -
  have d: "decoded G 2 (wordStart @ key) v =
      (wordStart @ key,
       formNorm G (paradigms G ! uint16_at v 2) (uint16_at v 4) (wordStart @ key),
       formTag G (paradigms G ! uint16_at v 2) (uint16_at v 4))"
    by (simp add: decoded_def payloadParadigm_def Let_def)
  show thesis
    using assms skip dup add unfolding d
    by (auto simp: andThen_eq_Inr Let_def index_eq_Inr sliceFrom_eq_Inr BigEndian_Uint16_0
        BigEndian_Uint16_drop prefixSuffixTag_eq_Inr normalForm_eq_Inr uint16_at_def
        split: if_splits)
qed


lemma predictValues_aligned:
  assumes "predictValues G wordStart key vs st = Inr st'" and "aligned Q (fst st)"
    and "\<And>v. v \<in> set vs \<Longrightarrow> productive (snd (snd (decoded G 2 (wordStart @ key) v))) \<Longrightarrow>
           Q (decoded G 2 (wordStart @ key) v)"
  shows "aligned Q (fst st')"
  using assms
proof (induction vs arbitrary: st)
  case Nil
  then show ?case by simp
next
  case (Cons v vs)
  have rest: "Q (decoded G 2 (wordStart @ key) v')"
    if "v' \<in> set vs" "productive (snd (snd (decoded G 2 (wordStart @ key) v')))" for v'
    using Cons.prems(3) [of v'] that by simp
  from Cons.prems(1) show ?case
  proof (cases rule: predictValues_Cons_decoded)
    case skip
    then show ?thesis using Cons.prems(2) rest by (rule Cons.IH)
  next
    case (dup tc)
    then show ?thesis using Cons.prems(2) by simp
  next
    case (add tc)
    have "Q (decoded G 2 (wordStart @ key) v)"
      using Cons.prems(3) [of v] add(1) by simp
    then have "aligned Q
       (fst (fst st) @ [fst (decoded G 2 (wordStart @ key) v)],
        fst (snd (fst st)) @ [fst (snd (decoded G 2 (wordStart @ key) v))],
        snd (snd (fst st)) @ [snd (snd (decoded G 2 (wordStart @ key) v))])"
      using Cons.prems(2) by (intro aligned_snoc) simp_all
    then show ?thesis using Cons.IH [OF add(2)] rest by simp
  qed
qed

lemma predictItems_aligned:
  assumes "predictItems G wordStart items st = Inr st'" and "aligned Q (fst st)"
    and "\<And>it v. it \<in> set items \<Longrightarrow> v \<in> set (snd it) \<Longrightarrow>
           productive (snd (snd (decoded G 2 (wordStart @ fst it) v))) \<Longrightarrow>
           Q (decoded G 2 (wordStart @ fst it) v)"
  shows "aligned Q (fst st')"
  using assms
proof (induction items arbitrary: st)
  case Nil
  then show ?case by simp
next
  case (Cons it items)
  then obtain a where 1: "predictValues G wordStart (fst it) (snd it) st = Inr a"
    and 2: "predictItems G wordStart items a = Inr st'"
    by (auto simp: andThen_eq_Inr)
  have "aligned Q (fst a)"
    using 1 Cons.prems(2)
  proof (rule predictValues_aligned)
    fix v assume "v \<in> set (snd it)" "productive (snd (snd (decoded G 2 (wordStart @ fst it) v)))"
    then show "Q (decoded G 2 (wordStart @ fst it) v)" using Cons.prems(3) [of it v] by simp
  qed
  with 2 show ?case
  proof (rule Cons.IH)
    fix it' v assume "it' \<in> set items" "v \<in> set (snd it')"
      "productive (snd (snd (decoded G 2 (wordStart @ fst it') v)))"
    then show "Q (decoded G 2 (wordStart @ fst it') v)" using Cons.prems(3) [of it' v] by simp
  qed
qed

lemma predictSplits_aligned:
  assumes "predictSplits G d sps st = Inr st'" and "aligned Q (fst st)"
    and "\<And>sp it v. sp \<in> set sps \<Longrightarrow> it \<in> set (similarItems d (snd sp)) \<Longrightarrow> v \<in> set (snd it) \<Longrightarrow>
           productive (snd (snd (decoded G 2 (fst sp @ fst it) v))) \<Longrightarrow>
           Q (decoded G 2 (fst sp @ fst it) v)"
  shows "aligned Q (fst st')"
  using assms
proof (induction sps arbitrary: st)
  case Nil
  then show ?case by simp
next
  case (Cons sp sps)
  then obtain a where 1: "predictItems G (fst sp) (similarItems d (snd sp)) st = Inr a"
    and 2: "(if snd a > 1 then Inr a else predictSplits G d sps a) = Inr st'"
    by (auto simp: andThen_eq_Inr)
  have a: "aligned Q (fst a)"
    using 1 Cons.prems(2)
  proof (rule predictItems_aligned)
    fix it v assume "it \<in> set (similarItems d (snd sp))" "v \<in> set (snd it)"
      "productive (snd (snd (decoded G 2 (fst sp @ fst it) v)))"
    then show "Q (decoded G 2 (fst sp @ fst it) v)" using Cons.prems(3) [of sp it v] by simp
  qed
  show ?case
  proof (cases "snd a > 1")
    case True
    then show ?thesis using 2 a by simp
  next
    case False
    then have "predictSplits G d sps a = Inr st'" using 2 by simp
    then show ?thesis using a
    proof (rule Cons.IH)
      fix sp' it v assume "sp' \<in> set sps" "it \<in> set (similarItems d (snd sp'))" "v \<in> set (snd it)"
        "productive (snd (snd (decoded G 2 (fst sp' @ fst it) v)))"
      then show "Q (decoded G 2 (fst sp' @ fst it) v)" using Cons.prems(3) [of sp' it v] by simp
    qed
  qed
qed

lemma predictPrefixes_aligned:
  assumes "predictPrefixes G word splits psr k acc = Inr acc'" and "aligned Q acc"
    and "\<And>j sp it v. j < length psr \<Longrightarrow> HasPrefix word (psr ! j) \<Longrightarrow>
           k + j < length (predictionDAWGs G) \<Longrightarrow> sp \<in> set splits \<Longrightarrow>
           it \<in> set (similarItems (predictionDAWGs G ! (k + j)) (snd sp)) \<Longrightarrow> v \<in> set (snd it) \<Longrightarrow>
           productive (snd (snd (decoded G 2 (fst sp @ fst it) v))) \<Longrightarrow>
           Q (decoded G 2 (fst sp @ fst it) v)"
  shows "aligned Q acc'"
  using assms
proof (induction psr arbitrary: k acc)
  case Nil
  then show ?case by simp
next
  case (Cons p ps)
  have rest: "Q (decoded G 2 (fst sp @ fst it) v)"
    if "j < length ps" "HasPrefix word (ps ! j)" "Suc k + j < length (predictionDAWGs G)"
      "sp \<in> set splits" "it \<in> set (similarItems (predictionDAWGs G ! (Suc k + j)) (snd sp))"
      "v \<in> set (snd it)" "productive (snd (snd (decoded G 2 (fst sp @ fst it) v)))" for j sp it v
    using Cons.prems(3) [of "Suc j" sp it v] that by simp
  show ?case
  proof (cases "HasPrefix word p")
    case False
    then have "predictPrefixes G word splits ps (Suc k) acc = Inr acc'"
      using Cons.prems(1) by simp
    then show ?thesis using Cons.prems(2) rest by (rule Cons.IH)
  next
    case True
    then obtain st where k: "k < length (predictionDAWGs G)"
      and 1: "predictSplits G (predictionDAWGs G ! k) (rev splits) (acc, 0) = Inr st"
      and 2: "predictPrefixes G word splits ps (Suc k) (fst st) = Inr acc'"
      using Cons.prems(1) by (auto simp: andThen_eq_Inr index_eq_Inr)
    have "aligned Q (fst st)"
    proof (rule predictSplits_aligned [OF 1])
      show "aligned Q (fst (acc, 0 :: nat))" using Cons.prems(2) by simp
    next
      fix sp it v assume "sp \<in> set (rev splits)"
        "it \<in> set (similarItems (predictionDAWGs G ! k) (snd sp))" "v \<in> set (snd it)"
        "productive (snd (snd (decoded G 2 (fst sp @ fst it) v)))"
      then show "Q (decoded G 2 (fst sp @ fst it) v)"
        using Cons.prems(3) [of 0 sp it v] True k by simp
    qed
    with 2 show ?thesis using rest by (rule Cons.IH)
  qed
qed

lemma guessAndPredict_aligned:
  assumes "guessAndPredict G word acc = Inr acc'" and "aligned Q acc"
    and "\<And>sp w n t. sp \<in> set (wordSplits word 3 5) \<Longrightarrow> dictionaryRow G (snd sp) (w, n, t) \<Longrightarrow>
           productive t \<Longrightarrow> Q (fst sp @ w, fst sp @ n, t)"
    and "\<And>r. predictedRow G word r \<Longrightarrow> Q r"
  shows "aligned Q acc'"
proof -
  obtain a where 1: "unknownPrefixLoop G (wordSplits word 3 5) acc = Inr a"
    and 2: "(if length word \<ge> 4 then predictPrefixes G word (split5 word) (prefixes G) 0 a
             else Inr a) = Inr acc'"
    using assms(1) by (auto simp: guessAndPredict_def andThen_eq_Inr)
  have a: "aligned Q a"
    using 1 assms(2,3) by (rule unknownPrefixLoop_aligned)
  show ?thesis
  proof (cases "length word \<ge> 4")
    case False
    then show ?thesis using 2 a by simp
  next
    case True
    then have "predictPrefixes G word (split5 word) (prefixes G) 0 a = Inr acc'"
      using 2 by simp
    then show ?thesis using a
    proof (rule predictPrefixes_aligned)
      fix j sp it v assume "j < length (prefixes G)" "HasPrefix word (prefixes G ! j)"
        "0 + j < length (predictionDAWGs G)" "sp \<in> set (split5 word)"
        "it \<in> set (similarItems (predictionDAWGs G ! (0 + j)) (snd sp))" "v \<in> set (snd it)"
        "productive (snd (snd (decoded G 2 (fst sp @ fst it) v)))"
      then have "predictedRow G word (decoded G 2 (fst sp @ fst it) v)"
        unfolding predictedRow_def using True
        by (intro exI [of _ j] exI [of _ sp] exI [of _ it] exI [of _ v]) simp
      then show "Q (decoded G 2 (fst sp @ fst it) v)" by (rule assms(4))
    qed
  qed
qed

lemma XParse_aligned: "XParse L G w = Inr r \<Longrightarrow> aligned (analysis L G w) r"
proof (induction "length w" arbitrary: w r rule: less_induct)
  case less
  note ih = less.hyps
  let ?word = "ToLower L w"
  have len: "length ?word = length w" by (simp add: ToLower_def)
  have start: "aligned (analysis L G w) p" if "Parse G ?word = Inr p" for p
    using Parse_aligned [OF that] by (rule aligned_mono) (rule analysis.dictionary)
  have known: "aligned (analysis L G w) acc"
    if "Parse G ?word = Inr p" "knownPrefixLoop (XParse L G) ?word knownPrefixes p = Inr acc" for p acc
    using that(2) start [OF that(1)]
  proof (rule knownPrefixLoop_aligned [where P = "\<lambda>p. analysis L G (TrimPrefix ?word p)"])
    fix p r assume p: "p \<in> set knownPrefixes" "HasPrefix ?word p"
      and r: "XParse L G (TrimPrefix ?word p) = Inr r"
    have "length (TrimPrefix ?word p) < length w"
      using length_TrimPrefix [OF p(2) knownPrefixes_nonempty [OF p(1)]] len by simp
    then show "aligned (analysis L G (TrimPrefix ?word p)) r" using ih r by simp
  next
    fix p w' n t assume "p \<in> set knownPrefixes" "HasPrefix ?word p"
      "3 \<le> length (TrimPrefix ?word p)" "analysis L G (TrimPrefix ?word p) (w', n, t)" "productive t"
    then show "analysis L G w (p @ w', p @ n, t)" by (rule analysis.knownPrefix)
  qed
  have hyph: "aligned (analysis L G w) acc'"
    if "aligned (analysis L G w) acc" "hyphen \<in> set ?word" "count_list ?word hyphen = 1"
      "hyphenated (XParse L G) ?word acc = Inr acc'"
      "\<not> HasPrefix ?word [hyphen]" "\<not> HasSuffix ?word [hyphen]" for acc acc'
    using that(4,1)
  proof (rule hyphenated_aligned [where Pl = "analysis L G (leftPart ?word)"
        and Pr = "analysis L G (rightPart ?word)"])
    fix r assume r: "XParse L G (leftPart ?word) = Inr r"
    have "length (leftPart ?word) < length w"
      using length_leftPart [OF that(2)] len by simp
    then show "aligned (analysis L G (leftPart ?word)) r" using ih r by simp
  next
    fix r assume r: "XParse L G (rightPart ?word) = Inr r"
    have "length (rightPart ?word) < length w"
      using length_rightPart [OF that(2)] len by simp
    then show "aligned (analysis L G (rightPart ?word)) r" using ih r by simp
  next
    fix lword lnorm ltag rword rnorm rtag
    assume "analysis L G (leftPart ?word) (lword, lnorm, ltag)"
      "analysis L G (rightPart ?word) (rword, rnorm, rtag)"
      "similarityFeatures ltag = similarityFeatures rtag"
    then show "analysis L G w (lword @ [hyphen] @ rword, lnorm @ [hyphen] @ rnorm, ltag)"
      using that(3,5,6) by (intro analysis.agreement)
  next
    fix rword rnorm rtag assume "analysis L G (rightPart ?word) (rword, rnorm, rtag)"
    then show "analysis L G w
        (leftPart ?word @ [hyphen] @ rword, leftPart ?word @ [hyphen] @ rnorm, rtag)"
      using that(3,5,6) by (intro analysis.fixedLeft)
  qed
  have guess: "aligned (analysis L G w) r'"
    if "aligned (analysis L G w) acc" "guessAndPredict G ?word acc = Inr r'" for acc r'
    using that(2,1)
  proof (rule guessAndPredict_aligned)
    fix sp w' n t assume "sp \<in> set (wordSplits ?word 3 5)" "dictionaryRow G (snd sp) (w', n, t)"
      "productive t"
    then show "analysis L G w (fst sp @ w', fst sp @ n, t)" by (rule analysis.unknownPrefix)
  next
    fix r' assume "predictedRow G ?word r'"
    then show "analysis L G w r'" by (rule analysis.predicted)
  qed
  from less.prems show ?case
  proof (cases rule: XParse_cases)
    case dictionary
    then show ?thesis using start by simp
  next
    case (particle p)
    show ?thesis
    proof (rule particleStrip_aligned [OF particle(4),
          where P = "\<lambda>s. analysis L G (TrimSuffix ?word s)"])
      fix s r' assume s: "s \<in> set particlesAfterHyphen" "HasSuffix ?word s"
        and r': "XParse L G (TrimSuffix ?word s) = Inr r'"
      have "length (TrimSuffix ?word s) < length w"
        using length_TrimSuffix [OF s(2) particles_nonempty [OF s(1)]] len by simp
      then show "aligned (analysis L G (TrimSuffix ?word s)) r'" using ih r' by simp
    next
      fix s w' n t assume "s \<in> set particlesAfterHyphen" "HasSuffix ?word s"
        "analysis L G (TrimSuffix ?word s) (w', n, t)"
      then show "analysis L G w (w' @ s, n @ s, t)" by (rule analysis.particle)
    qed
  next
    case (adverb p)
    show ?thesis
    proof (rule hyphenAdverb_aligned [OF adverb(5), where P = "analysis L G (drop 3 ?word)"])
      fix r' assume r': "XParse L G (drop 3 ?word) = Inr r'"
      have "length (drop 3 ?word) < length w" using adverb(3) len by simp
      then show "aligned (analysis L G (drop 3 ?word)) r'" using ih r' by simp
    next
      fix w' n t assume "analysis L G (drop 3 ?word) (w', n, t)" "HasPrefix t (str ''ADJF'')"
        "Contains t (str ''sing,datv'')"
      then show "analysis L G w (po_hyphen @ w', po_hyphen @ w', str ''ADVB'')"
        using adverb(3,4) len by (intro analysis.adverb) simp_all
    qed
  next
    case (knownPrefix p)
    show ?thesis by (rule known [OF knownPrefix(1,3)])
  next
    case (compound p acc)
    show ?thesis by (rule hyph [OF known [OF compound(1,3)] compound(5,6,7,9,10)])
  next
    case (guessed p acc)
    show ?thesis by (rule guess [OF known [OF guessed(1,3)] guessed(5)])
  next
    case (guessedHyphen p acc acc')
    have "sameLength acc"
      using known [OF guessedHyphen(1,3)] by (rule aligned_sameLength)
    then have "sameLength acc'"
      using hyphenated_sameLength [OF guessedHyphen(6)] by simp
    then have "aligned (analysis L G w) acc'"
      using guessedHyphen(7) by (rule aligned_empty)
    then show ?thesis using guessedHyphen(8) by (rule guess)
  qed
qed

section \<open>Returning on well-formed dictionary data\<close>

lemma returnsI: "m = Inr r \<Longrightarrow> sameLength r \<Longrightarrow> returns m"
  by (auto simp: returns_def)

lemma returnsE: "returns m \<Longrightarrow> (\<And>ws ns ts. m = Inr (ws, ns, ts) \<Longrightarrow> length ns = length ws
    \<Longrightarrow> length ts = length ws \<Longrightarrow> thesis) \<Longrightarrow> thesis"
  by (auto simp: returns_def sameLength_def)

lemma BigEndian_Uint16_dropI:
  "k + 2 \<le> length v \<Longrightarrow>
     BigEndian_Uint16 (drop k v) = Inr (or (ucast (v ! Suc k)) (push_bit 8 (ucast (v ! k))))"
  by (simp add: BigEndian_Uint16_drop)

lemma prefixSuffixTagI:
  "formInRange G p i \<Longrightarrow>
     prefixSuffixTag G p i = Inr (formPrefix G p i, formSuffix G p i, formTag G p i)"
  by (simp add: prefixSuffixTag_eq_Inr)

lemma normalFormI:
  "formInRange G p 0 \<Longrightarrow>
     normalForm G p i (formPrefix G p i) (formSuffix G p i) key = Inr (formNorm G p i key)"
  by (simp add: normalForm_eq_Inr)

lemma parseValue_total:
  assumes "payloadInRange G 0 v"
  shows "\<exists>r. parseValue G pd word key v acc = Inr r"
proof -
  obtain ws ns ts ps nz where acc: "acc = ((ws, ns, ts, ps), nz)"
    by (metis prod.exhaust)
  have len: "4 \<le> length v" and para: "uint16_at v 0 < length (paradigms G)"
    and f: "formInRange G (payloadParadigm G v 0) (uint16_at v 2)"
    and f0: "formInRange G (payloadParadigm G v 0) 0"
    using assms unfolding payloadInRange_def add_0_left by simp_all
  have 1: "BigEndian_Uint16 v = Inr (or (ucast (v ! Suc 0)) (push_bit 8 (ucast (v ! 0))))"
    using BigEndian_Uint16_dropI [of 0 v] len by simp
  have 2: "BigEndian_Uint16 (drop 2 v) = Inr (or (ucast (v ! 3)) (push_bit 8 (ucast (v ! 2))))"
    using BigEndian_Uint16_dropI [of 2 v] len by simp
  have i0: "unat (or (ucast (v ! Suc 0)) (push_bit 8 (ucast (v ! 0))) :: 16 word) = uint16_at v 0"
    and i2: "unat (or (ucast (v ! 3)) (push_bit 8 (ucast (v ! 2))) :: 16 word) = uint16_at v 2"
    by (simp_all add: uint16_at_def)
  have 3: "index (paradigms G) (uint16_at v 0) = Inr (payloadParadigm G v 0)"
    using para by (simp add: index_def payloadParadigm_def)
  show ?thesis
    unfolding acc parseValue_def
    using len f f0
    by (simp add: 1 2 i0 i2 3 sliceFrom_def prefixSuffixTagI normalFormI Let_def)
qed

lemma parseValues_total:
  "\<forall>v\<in>set vs. payloadInRange G 0 v \<Longrightarrow> \<exists>r. parseValues G pd word key vs acc = Inr r"
proof (induction vs arbitrary: acc)
  case Nil
  then show ?case by simp
next
  case (Cons v vs)
  then obtain a where "parseValue G pd word key v acc = Inr a"
    using parseValue_total [of G v pd word key acc] by auto
  then show ?case using Cons by simp
qed

lemma parseItems_total:
  "\<forall>it\<in>set items. \<forall>v\<in>set (snd it). payloadInRange G 0 v \<Longrightarrow>
     \<exists>r. parseItems G pd word items acc = Inr r"
proof (induction items arbitrary: acc)
  case Nil
  then show ?case by simp
next
  case (Cons it items)
  then obtain a where "parseValues G pd word (fst it) (snd it) acc = Inr a"
    using parseValues_total [of "snd it" G pd word "fst it" acc] by auto
  then show ?case using Cons by simp
qed

lemma Parse_returns: "wellFormed G \<Longrightarrow> returns (Parse G w)"
proof -
  assume wf: "wellFormed G"
  then obtain pd wd where g: "probDAWG G = Some pd" "wordsDAWG G = Some wd"
    by (auto simp: wellFormed_def)
  have "\<forall>it\<in>set (similarItems wd w). \<forall>v\<in>set (snd it). payloadInRange G 0 v"
    using wf g by (simp add: wellFormed_def)
  then obtain c where "candidateSet G pd wd w = Inr c"
    unfolding candidateSet_def using parseItems_total by blast
  then obtain r where r: "Parse G w = Inr r"
    using g by (cases c) (simp add: Parse_def)
  then show ?thesis
    using Parse_sameLength by (blast intro: returnsI)
qed

lemma ex_triple [simp]: "\<exists>a b c. x = (a, b, c)"
  by (cases x) auto

lemma ex_quad [simp]: "\<exists>a b c d. x = ((a, b, c), d)"
  by (cases x) auto

lemma particleStrip_returns:
  assumes "\<And>s. s \<in> set ps \<Longrightarrow> HasSuffix word s \<Longrightarrow> returns (rec (TrimSuffix word s))"
  shows "\<exists>x. particleStrip rec word ps = Inr x"
  using assms
proof (induction ps)
  case Nil
  then show ?case by simp
next
  case (Cons s ps)
  have ih: "\<exists>x. particleStrip rec word ps = Inr x"
    using Cons by simp
  show ?case
  proof (cases "HasSuffix word s")
    case False
    then show ?thesis using ih by simp
  next
    case True
    have "returns (rec (TrimSuffix word s))" using Cons.prems [OF _ True] by simp
    then obtain ws ns ts where r: "rec (TrimSuffix word s) = Inr (ws, ns, ts)"
      and l: "length ns = length ws" by (rule returnsE)
    show ?thesis
      using True r l ih by (simp add: appendSuffix_def)
  qed
qed

lemma adverbLoop_total:
  "i + length ts \<le> length words \<Longrightarrow> \<exists>x. adverbLoop words ts i = Inr x"
  by (induction ts arbitrary: i) (auto simp: index_def Let_def)

lemma hyphenAdverb_returns:
  assumes "returns (rec (drop 3 word))"
  shows "\<exists>x. hyphenAdverb rec word = Inr x"
proof -
  from assms obtain ws ns ts where r: "rec (drop 3 word) = Inr (ws, ns, ts)"
    and l: "length ts = length ws" by (rule returnsE)
  show ?thesis
    using adverbLoop_total [of 0 ts ws] l by (simp add: hyphenAdverb_def r)
qed

lemma appendProductive_total:
  "i + length ts \<le> length ws \<Longrightarrow> i + length ts \<le> length ns \<Longrightarrow>
     \<exists>a. appendProductive prefix ws ns ts i acc = Inr a"
  by (induction ts arbitrary: i acc) (auto simp: index_def)

lemma knownPrefixLoop_returns:
  assumes "\<And>p. p \<in> set ps \<Longrightarrow> HasPrefix word p \<Longrightarrow> returns (rec (TrimPrefix word p))"
  shows "\<exists>a. knownPrefixLoop rec word ps acc = Inr a"
  using assms
proof (induction ps arbitrary: acc)
  case Nil
  then show ?case by simp
next
  case (Cons p ps)
  have ih: "\<exists>a. knownPrefixLoop rec word ps acc' = Inr a" for acc'
    using Cons by simp
  show ?case
  proof (cases "HasPrefix word p \<and> \<not> length (TrimPrefix word p) < 3")
    case False
    then show ?thesis using ih [of acc] by (auto simp: Let_def)
  next
    case True
    then have "returns (rec (TrimPrefix word p))" using Cons.prems by simp
    then obtain ws ns ts where r: "rec (TrimPrefix word p) = Inr (ws, ns, ts)"
      and l: "length ns = length ws" "length ts = length ws" by (rule returnsE)
    obtain a where a: "appendProductive p ws ns ts 0 acc = Inr a"
      using appendProductive_total [of 0 ts ws ns p acc] l by auto
    show ?thesis
      using True r a ih [of a] by (simp add: Let_def)
  qed
qed

lemma compoundInner_total:
  "i < length (fst l) \<Longrightarrow> i < length (snd l) \<Longrightarrow>
   j + length rfs \<le> length (fst r) \<Longrightarrow> j + length rfs \<le> length (snd r) \<Longrightarrow>
     \<exists>a. compoundInner l i tag lf r rfs j acc = Inr a"
  by (induction rfs arbitrary: j acc) (auto simp: index_def)

lemma compoundOuter_total:
  "i + length ltags \<le> length (fst l) \<Longrightarrow> i + length ltags \<le> length (snd l) \<Longrightarrow>
   length rfs \<le> length (fst r) \<Longrightarrow> length rfs \<le> length (snd r) \<Longrightarrow>
     \<exists>a. compoundOuter l ltags i r rfs acc = Inr a"
proof (induction ltags arbitrary: i acc)
  case Nil
  then show ?case by simp
next
  case (Cons t ltags)
  obtain a where a: "compoundInner l i t (similarityFeatures t) r rfs 0 acc = Inr a"
    using compoundInner_total [of i l 0 rfs r t "similarityFeatures t" acc] Cons.prems by auto
  show ?case
    using a Cons.IH [of "Suc i" a] Cons.prems by simp
qed

lemma fixedLeft_total:
  "i + length ts \<le> length (fst r) \<Longrightarrow> i + length ts \<le> length (snd r) \<Longrightarrow>
     \<exists>a. fixedLeft left r ts i acc = Inr a"
  by (induction ts arbitrary: i acc) (auto simp: index_def)

lemma hyphenated_returns:
  assumes "returns (rec (leftPart word))" and "returns (rec (rightPart word))"
  shows "\<exists>a. hyphenated rec word acc = Inr a"
proof -
  from assms(1) obtain lws lns lts where l: "rec (leftPart word) = Inr (lws, lns, lts)"
    and ll: "length lns = length lws" "length lts = length lws" by (rule returnsE)
  from assms(2) obtain rws rns rts where r: "rec (rightPart word) = Inr (rws, rns, rts)"
    and rl: "length rns = length rws" "length rts = length rws" by (rule returnsE)
  obtain a where a: "compoundOuter (lws, lns) lts 0 (rws, rns) (map similarityFeatures rts) acc = Inr a"
    using compoundOuter_total [of 0 lts "(lws, lns)" "map similarityFeatures rts" "(rws, rns)" acc]
      ll rl by auto
  obtain b where "fixedLeft (leftPart word) (rws, rns) rts 0 a = Inr b"
    using fixedLeft_total [of 0 rts "(rws, rns)" "leftPart word" a] rl by auto
  then show ?thesis
    using l r a by (simp add: hyphenated_def Let_def)
qed

lemma unknownPrefixLoop_total:
  assumes "wellFormed G"
  shows "\<exists>a. unknownPrefixLoop G splits acc = Inr a"
proof (induction splits arbitrary: acc)
  case Nil
  then show ?case by simp
next
  case (Cons sp splits)
  from Parse_returns [OF assms, of "snd sp"] obtain ws ns ts where
    r: "Parse G (snd sp) = Inr (ws, ns, ts)"
    and l: "length ns = length ws" "length ts = length ws" by (rule returnsE)
  obtain a where a: "appendProductive (fst sp) ws ns ts 0 acc = Inr a"
    using appendProductive_total [of 0 ts ws ns "fst sp" acc] l by auto
  show ?case
    using r a Cons [of a] by simp
qed

lemma predictValues_total:
  "\<forall>v\<in>set vs. payloadInRange G 2 v \<Longrightarrow> sameLength (fst st) \<Longrightarrow>
     \<exists>r. predictValues G wordStart key vs st = Inr r"
proof (induction vs arbitrary: st)
  case Nil
  then show ?case by simp
next
  case (Cons v vs)
  have len: "6 \<le> length v" and para: "uint16_at v 2 < length (paradigms G)"
    and f: "formInRange G (payloadParadigm G v 2) (uint16_at v 4)"
    and f0: "formInRange G (payloadParadigm G v 2) 0"
    using Cons.prems(1) by (simp_all add: payloadInRange_def)
  have ih: "\<exists>r. predictValues G wordStart key vs st' = Inr r" if "sameLength (fst st')" for st'
    using Cons.IH [OF _ that] Cons.prems(1) by simp
  have 1: "BigEndian_Uint16 v = Inr (or (ucast (v ! Suc 0)) (push_bit 8 (ucast (v ! 0))))"
    using BigEndian_Uint16_dropI [of 0 v] len by simp
  have 2: "BigEndian_Uint16 (drop 2 v) = Inr (or (ucast (v ! 3)) (push_bit 8 (ucast (v ! 2))))"
    using BigEndian_Uint16_dropI [of 2 v] len by simp
  have 4: "BigEndian_Uint16 (drop 4 v) = Inr (or (ucast (v ! 5)) (push_bit 8 (ucast (v ! 4))))"
    using BigEndian_Uint16_dropI [of 4 v] len by simp
  have i2: "unat (or (ucast (v ! 3)) (push_bit 8 (ucast (v ! 2))) :: 16 word) = uint16_at v 2"
    and i4: "unat (or (ucast (v ! 5)) (push_bit 8 (ucast (v ! 4))) :: 16 word) = uint16_at v 4"
    by (simp_all add: uint16_at_def)
  have 3: "index (paradigms G) (uint16_at v 2) = Inr (payloadParadigm G v 2)"
    using para by (simp add: index_def payloadParadigm_def)
  let ?p = "payloadParadigm G v 2" and ?i = "uint16_at v 4"
  let ?tag = "formTag G ?p ?i" and ?word = "wordStart @ key"
  let ?count = "unat (or (ucast (v ! Suc 0)) (push_bit 8 (ucast (v ! 0))) :: 16 word)"
  have step: "predictValues G wordStart key (v # vs) st =
      (if \<not> productive ?tag then predictValues G wordStart key vs st
       else andThen (seen (fst (fst st)) (fst (snd (fst st))) (snd (snd (fst st))) 0 ?word
                       (formNorm G ?p ?i ?word) ?tag)
              (\<lambda>dup. if dup then Inr (fst st, snd st + ?count)
                      else predictValues G wordStart key vs
                        ((fst (fst st) @ [?word], fst (snd (fst st)) @ [formNorm G ?p ?i ?word],
                          snd (snd (fst st)) @ [?tag]), snd st + ?count)))"
    using len f f0
    by (simp add: 1 2 3 4 i2 i4 sliceFrom_def prefixSuffixTagI normalFormI Let_def)
  show ?case
  proof (cases "productive ?tag")
    case False
    then show ?thesis using step ih [OF Cons.prems(2)] by simp
  next
    case True
    obtain b where b: "seen (fst (fst st)) (fst (snd (fst st))) (snd (snd (fst st))) 0 ?word
                       (formNorm G ?p ?i ?word) ?tag = Inr b"
      using seen_total [of 0 "snd (snd (fst st))" "fst (fst st)" "fst (snd (fst st))" ?word
          "formNorm G ?p ?i ?word" ?tag]
        Cons.prems(2) by (auto simp: sameLength_def)
    have "sameLength (fst ((fst (fst st) @ [?word], fst (snd (fst st)) @ [formNorm G ?p ?i ?word],
                          snd (snd (fst st)) @ [?tag]), snd st + ?count))"
      using Cons.prems(2) by (simp add: sameLength_def)
    from ih [OF this] show ?thesis
      unfolding step using True b by (cases b) simp_all
  qed
qed

lemma predictItems_total:
  "\<forall>it\<in>set items. \<forall>v\<in>set (snd it). payloadInRange G 2 v \<Longrightarrow> sameLength (fst st) \<Longrightarrow>
     \<exists>r. predictItems G wordStart items st = Inr r"
proof (induction items arbitrary: st)
  case Nil
  then show ?case by simp
next
  case (Cons it items)
  obtain a where a: "predictValues G wordStart (fst it) (snd it) st = Inr a"
    using predictValues_total [of "snd it" G st wordStart "fst it"] Cons.prems by auto
  have "sameLength (fst a)"
    using predictValues_sameLength [OF a Cons.prems(2)] .
  then show ?case using a Cons by simp
qed

lemma predictSplits_total:
  "\<forall>q. \<forall>it\<in>set (similarItems d q). \<forall>v\<in>set (snd it). payloadInRange G 2 v \<Longrightarrow>
   sameLength (fst st) \<Longrightarrow> \<exists>r. predictSplits G d sps st = Inr r"
proof (induction sps arbitrary: st)
  case Nil
  then show ?case by simp
next
  case (Cons sp sps)
  obtain a where a: "predictItems G (fst sp) (similarItems d (snd sp)) st = Inr a"
    using predictItems_total [of "similarItems d (snd sp)" G st "fst sp"] Cons.prems by auto
  have "sameLength (fst a)"
    using predictItems_sameLength [OF a Cons.prems(2)] .
  then show ?case using a Cons by simp
qed

lemma predictPrefixes_total:
  assumes "wellFormed G"
  shows "k + length ps \<le> length (predictionDAWGs G) \<Longrightarrow> sameLength acc \<Longrightarrow>
     \<exists>r. predictPrefixes G word splits ps k acc = Inr r"
proof (induction ps arbitrary: k acc)
  case Nil
  then show ?case by simp
next
  case (Cons p ps)
  show ?case
  proof (cases "HasPrefix word p")
    case False
    then show ?thesis using Cons by simp
  next
    case True
    have k: "k < length (predictionDAWGs G)" using Cons.prems(1) by simp
    let ?d = "predictionDAWGs G ! k"
    have "?d \<in> set (predictionDAWGs G)" using k by simp
    then have d: "\<forall>q. \<forall>it\<in>set (similarItems ?d q). \<forall>v\<in>set (snd it). payloadInRange G 2 v"
      using assms by (simp add: wellFormed_def)
    obtain st where st: "predictSplits G ?d (rev splits) (acc, 0) = Inr st"
      using predictSplits_total [OF d, of "(acc, 0)" "rev splits"] Cons.prems(2) by auto
    have "sameLength (fst st)"
      using predictSplits_sameLength [OF st] Cons.prems(2) by simp
    then show ?thesis
      using True k st Cons.IH [of "Suc k" "fst st"] Cons.prems(1) by (simp add: index_def)
  qed
qed

lemma guessAndPredict_total:
  assumes "wellFormed G" and "sameLength acc"
  shows "\<exists>r. guessAndPredict G word acc = Inr r"
proof -
  obtain a where a: "unknownPrefixLoop G (wordSplits word 3 5) acc = Inr a"
    using unknownPrefixLoop_total [OF assms(1)] by blast
  have sl: "sameLength a"
    using unknownPrefixLoop_sameLength [OF a assms(2)] .
  have "0 + length (prefixes G) \<le> length (predictionDAWGs G)"
    using assms(1) by (simp add: wellFormed_def)
  from predictPrefixes_total [OF assms(1) this sl]
  show ?thesis
    using a by (simp add: guessAndPredict_def)
qed

lemma XParse_unfold:
  "XParse L G w =
     andThen (Parse G (ToLower L w)) (\<lambda>p.
       if length (fst p) > 0 then Inr p
       else andThen (if hyphen \<in> set (ToLower L w)
                     then particleStrip (XParse L G) (ToLower L w) particlesAfterHyphen
                     else Inr None) (\<lambda>stripped.
         case stripped of
           Some result \<Rightarrow> Inr result
         | None \<Rightarrow>
             andThen (if length (ToLower L w) \<ge> 5 \<and> HasPrefix (ToLower L w) po_hyphen
                      then hyphenAdverb (XParse L G) (ToLower L w)
                      else Inr None) (\<lambda>adverb.
               case adverb of
                 Some result \<Rightarrow> Inr result
               | None \<Rightarrow>
                   andThen (knownPrefixLoop (XParse L G) (ToLower L w) knownPrefixes p) (\<lambda>acc.
                     if length (fst acc) > 0 then Inr acc
                     else if hyphen \<in> set (ToLower L w) \<and> count_list (ToLower L w) hyphen = 1
                             \<and> \<not> HasPrefix (ToLower L w) [hyphen]
                             \<and> \<not> HasSuffix (ToLower L w) [hyphen]
                     then andThen (hyphenated (XParse L G) (ToLower L w) acc) (\<lambda>acc'.
                            if length (fst acc') > 0 then Inr acc'
                            else guessAndPredict G (ToLower L w) acc')
                     else guessAndPredict G (ToLower L w) acc))))"
  by (subst XParse.simps) (simp only: Let_def split_def prod.collapse)

lemma XParse_total:
  assumes "wellFormed G"
  shows "\<exists>r. XParse L G w = Inr r"
proof (induction "length w" arbitrary: w rule: less_induct)
  case less
  let ?word = "ToLower L w"
  have lw: "length ?word = length w" by (simp add: ToLower_def)
  have ih: "returns (XParse L G w')" if "length w' < length w" for w'
    using less [OF that] XParse_sameLength by (blast intro: returnsI)
  from Parse_returns [OF assms, of ?word] obtain p where p: "Parse G ?word = Inr p"
    and sp: "sameLength p" by (auto simp: returns_def)
  let ?E = "guessAndPredict G ?word"
  let ?cond = "hyphen \<in> set ?word \<and> count_list ?word hyphen = 1
                 \<and> \<not> HasPrefix ?word [hyphen] \<and> \<not> HasSuffix ?word [hyphen]"
  let ?D = "\<lambda>acc. if ?cond
      then andThen (hyphenated (XParse L G) ?word acc)
             (\<lambda>acc'. if length (fst acc') > 0 then Inr acc' else ?E acc')
      else ?E acc"
  let ?C = "andThen (knownPrefixLoop (XParse L G) ?word knownPrefixes p)
      (\<lambda>acc. if length (fst acc) > 0 then Inr acc else ?D acc)"
  let ?B = "andThen (if length ?word \<ge> 5 \<and> HasPrefix ?word po_hyphen
                         then hyphenAdverb (XParse L G) ?word else Inr None)
      (\<lambda>adverb. case adverb of Some result \<Rightarrow> Inr result | None \<Rightarrow> ?C)"
  let ?A = "andThen (if hyphen \<in> set ?word
                         then particleStrip (XParse L G) ?word particlesAfterHyphen else Inr None)
      (\<lambda>stripped. case stripped of Some result \<Rightarrow> Inr result | None \<Rightarrow> ?B)"
  have e: "\<exists>r. ?E a = Inr r" if "sameLength a" for a
    using guessAndPredict_total [OF assms that] .
  have d: "\<exists>r. ?D acc = Inr r" if acc: "sameLength acc" for acc
  proof (cases ?cond)
    case False
    then show ?thesis using e [OF acc] by (simp only: if_False)
  next
    case True
    then have h: "hyphen \<in> set ?word" by simp
    have "returns (XParse L G (leftPart ?word))" "returns (XParse L G (rightPart ?word))"
      using length_leftPart [OF h] length_rightPart [OF h] lw by (simp_all add: ih)
    then obtain acc' where acc': "hyphenated (XParse L G) ?word acc = Inr acc'"
      using hyphenated_returns by blast
    have "sameLength acc'" using hyphenated_sameLength [OF acc' acc] .
    from e [OF this] have "\<exists>r. (if length (fst acc') > 0 then Inr acc' else ?E acc') = Inr r"
      by (cases "length (fst acc') > 0") simp_all
    then show ?thesis using True acc' by simp
  qed
  have c: "\<exists>r. ?C = Inr r"
  proof -
    have "returns (XParse L G (TrimPrefix ?word q))"
      if "q \<in> set knownPrefixes" "HasPrefix ?word q" for q
      using length_TrimPrefix [OF that(2) knownPrefixes_nonempty [OF that(1)]] lw by (simp add: ih)
    then obtain acc where acc: "knownPrefixLoop (XParse L G) ?word knownPrefixes p = Inr acc"
      using knownPrefixLoop_returns by blast
    have "sameLength acc" using knownPrefixLoop_sameLength [OF acc sp] .
    from d [OF this] have "\<exists>r. (if length (fst acc) > 0 then Inr acc else ?D acc) = Inr r"
      by (cases "length (fst acc) > 0") simp_all
    then show ?thesis using acc by (simp only: andThen_Inr)
  qed
  have b: "\<exists>r. ?B = Inr r"
  proof (cases "length ?word \<ge> 5 \<and> HasPrefix ?word po_hyphen")
    case False
    then show ?thesis using c by (simp only: if_False andThen_Inr option.case)
  next
    case True
    then have "5 \<le> length w" using lw by simp
    then have "length (drop 3 ?word) < length w" using lw by simp
    then obtain x where x: "hyphenAdverb (XParse L G) ?word = Inr x"
      using hyphenAdverb_returns ih by blast
    show ?thesis
      using True x c by (cases x) (simp_all only: if_True andThen_Inr option.case, simp_all)
  qed
  have a: "\<exists>r. ?A = Inr r"
  proof (cases "hyphen \<in> set ?word")
    case False
    then show ?thesis using b by (simp only: if_False andThen_Inr option.case)
  next
    case True
    have "returns (XParse L G (TrimSuffix ?word s))"
      if "s \<in> set particlesAfterHyphen" "HasSuffix ?word s" for s
      using length_TrimSuffix [OF that(2) particles_nonempty [OF that(1)]] lw by (simp add: ih)
    then obtain x where x: "particleStrip (XParse L G) ?word particlesAfterHyphen = Inr x"
      using particleStrip_returns by blast
    show ?thesis
      using True x b by (cases x) (simp_all only: if_True andThen_Inr option.case, simp_all)
  qed
  show ?case
    unfolding XParse_unfold [of L G w] p andThen_Inr
    using a by (cases "length (fst p) > 0") (simp_all only: if_True if_False, simp_all)
qed

lemma XParse_returns: "wellFormed G \<Longrightarrow> returns (XParse L G w)"
  using XParse_total XParse_sameLength by (blast intro: returnsI)

section \<open>Evaluating the cascade on the small dictionary\<close>

lemma demo_wellFormed: "wellFormed demoG"
  unfolding wellFormed_def
  by (auto simp: demo_defs payloadInRange_def formInRange_def uint16_at_def payloadParadigm_def
      str_def split: if_splits)

lemma knownPrefixes_Cyrillic: "p \<in> set knownPrefixes \<Longrightarrow> \<exists>c cs. p = c # cs \<and> 0x430 \<le> c"
proof -
  have "list_all (\<lambda>p. case p of [] \<Rightarrow> False | c # cs \<Rightarrow> 0x430 \<le> c) knownPrefixes_literal"
    by (simp add: knownPrefixes_literal_def)
  then show "p \<in> set knownPrefixes \<Longrightarrow> \<exists>c cs. p = c # cs \<and> 0x430 \<le> c"
    by (cases p) (auto simp: knownPrefixes_def set_sort_Slice list_all_iff)
qed

lemma knownPrefixLoop_no_match:
  "\<forall>p\<in>set ps. \<not> HasPrefix word p \<Longrightarrow> knownPrefixLoop rec word ps acc = Inr acc"
  by (induction ps) simp_all

lemma knownPrefixLoop_Latin:
  "c < 0x430 \<Longrightarrow> knownPrefixLoop rec (c # cs) knownPrefixes acc = Inr acc"
proof (rule knownPrefixLoop_no_match, rule ballI)
  fix p assume "c < 0x430" "p \<in> set knownPrefixes"
  then show "\<not> HasPrefix (c # cs) p"
    using knownPrefixes_Cyrillic [of p] by auto
qed

lemma demo_Parse_absent:
  "Parse demoG (str ''at'') = Inr ([], [], [])" "Parse demoG (str ''xcat'') = Inr ([], [], [])"
  by (simp_all add: demo_defs eval_defs)

lemma length_str: "length (str s) = length s"
  by (simp add: str_def)

lemma demo_split5:
  "split5 (str ''xcat'') = [(str ''xca'', str ''t''), (str ''xc'', str ''at''), (str ''x'', str ''cat'')]"
  by code_simp

lemma demo_wordSplits: "wordSplits (str ''xcat'') 3 5 = [(str ''x'', str ''cat'')]"
  by code_simp

lemma demo_unknownPrefix:
  "unknownPrefixLoop demoG [(str ''x'', str ''cat'')] ([], [], []) =
     Inr ([str ''xcat''], [str ''xcat''], [str ''NOUN,sing''])"
  by (simp add: demo_Parse_cat productive_def nonproductiveGrammemes_def index_def)
    (simp add: str_def)

lemma demo_predict:
  "predictPrefixes demoG (str ''xcat'')
     [(str ''xca'', str ''t''), (str ''xc'', str ''at''), (str ''x'', str ''cat'')] (prefixes demoG) 0
     ([str ''xcat''], [str ''xcat''], [str ''NOUN,sing'']) =
     Inr ([str ''xcat''], [str ''xcat''], [str ''NOUN,sing''])"
  by (simp add: demo_defs eval_defs productive_def nonproductiveGrammemes_def Let_def)

lemma demo_guess:
  "guessAndPredict demoG (str ''xcat'') ([], [], []) =
     Inr ([str ''xcat''], [str ''xcat''], [str ''NOUN,sing''])"
  unfolding guessAndPredict_def demo_split5 demo_wordSplits
  by (simp add: demo_unknownPrefix demo_predict length_str
      del: unknownPrefixLoop.simps predictPrefixes.simps)

lemma demo_XParse_xcat:
  "XParse asciiLower demoG (str ''xcat'') =
     Inr ([str ''xcat''], [str ''xcat''], [str ''NOUN,sing''])"
proof -
  have l: "ToLower asciiLower (str ''xcat'') = str ''xcat''"
    by (simp add: ToLower_def asciiLower_def str_def)
  have h: "hyphen \<notin> set (str ''xcat'')" "length (str ''xcat'') = 4"
    by (simp_all add: hyphen_def str_def)
  have k: "knownPrefixLoop (XParse asciiLower demoG) (str ''xcat'') knownPrefixes ([], [], []) =
             Inr ([], [], [])"
    using knownPrefixLoop_Latin [of 120 _ "[99, 97, 116]"] by (simp add: str_def)
  show ?thesis
    unfolding XParse_unfold [of asciiLower demoG "str ''xcat''"] l
    by (simp add: demo_Parse_absent h k demo_guess)
qed

section \<open>Equal lengths and panics\<close>

text \<open>
  C3. For every input word, \<open>Parse\<close> and \<open>XParse\<close> return three lists (words, norms,
  tags) of equal length, and the entries at one index belong to one analysis.
  Whenever either returns, the lengths agree. At every index of a result of \<open>Parse\<close>
  the three entries are the key, the normal form and the tag that one payload of one
  matching item decodes to. At every index of a result of \<open>XParse\<close> the three entries
  are one analysis of the word: a row of the dictionary analyzer, or the row that one
  strategy builds from one analysis of the part of the word that it analyzes (from two,
  one of either part, for an agreement compound). With well-formed dictionary data
  both do return, for every word; and for a word that the words automaton does not
  hold, \<open>Parse\<close> returns three empty lists.
\<close>

theorem equal_length_lists:
  "(Parse G w = Inr (ws, ns, ts) \<longrightarrow> length ns = length ws \<and> length ts = length ws
      \<and> (\<forall>i<length ws. dictionaryRow G w (ws ! i, ns ! i, ts ! i)))
   \<and> (XParse L G w = Inr (ws', ns', ts') \<longrightarrow> length ns' = length ws' \<and> length ts' = length ws'
      \<and> (\<forall>i<length ws'. analysis L G w (ws' ! i, ns' ! i, ts' ! i)))
   \<and> (wellFormed G \<longrightarrow>
        (\<exists>ws ns ts. Parse G w = Inr (ws, ns, ts) \<and> length ns = length ws \<and> length ts = length ws)
      \<and> (\<exists>ws ns ts. XParse L G w = Inr (ws, ns, ts) \<and> length ns = length ws
             \<and> length ts = length ws))
   \<and> (probDAWG G = Some pd \<longrightarrow> wordsDAWG G = Some wd \<longrightarrow> similarItems wd w = []
        \<longrightarrow> Parse G w = Inr ([], [], []))"
proof -
  have 1: "Parse G w = Inr (ws, ns, ts) \<longrightarrow> length ns = length ws \<and> length ts = length ws
      \<and> (\<forall>i<length ws. dictionaryRow G w (ws ! i, ns ! i, ts ! i))"
    using Parse_aligned [of G w "(ws, ns, ts)"] by (simp add: aligned_iff)
  have 2: "XParse L G w = Inr (ws', ns', ts') \<longrightarrow> length ns' = length ws' \<and> length ts' = length ws'
      \<and> (\<forall>i<length ws'. analysis L G w (ws' ! i, ns' ! i, ts' ! i))"
    using XParse_aligned [of L G w "(ws', ns', ts')"] by (simp add: aligned_iff)
  have 3: "wellFormed G \<longrightarrow>
        (\<exists>ws ns ts. Parse G w = Inr (ws, ns, ts) \<and> length ns = length ws \<and> length ts = length ws)
      \<and> (\<exists>ws ns ts. XParse L G w = Inr (ws, ns, ts) \<and> length ns = length ws
             \<and> length ts = length ws)"
    using Parse_returns [of G w] XParse_returns [of G L w]
    by (auto elim!: returnsE)
  have 4: "probDAWG G = Some pd \<longrightarrow> wordsDAWG G = Some wd \<longrightarrow> similarItems wd w = []
        \<longrightarrow> Parse G w = Inr ([], [], [])"
    by (simp add: Parse_def candidateSet_def)
  show ?thesis using 1 2 3 4 by (intro conjI)
qed

theorem equal_length_lists_witness:
  "wellFormed demoG
   \<and> Parse demoG (str ''cats'') =
       Inr ([str ''cats'', str ''cats''], [str ''cat'', str ''cat''],
            [str ''VERB,sing,3per'', str ''NOUN,plur''])
   \<and> length [str ''cat'', str ''cat''] = length [str ''cats'', str ''cats'']
   \<and> dictionaryRow demoG (str ''cats'') (str ''cats'', str ''cat'', str ''VERB,sing,3per'')
   \<and> dictionaryRow demoG (str ''cats'') (str ''cats'', str ''cat'', str ''NOUN,plur'')
   \<and> XParse asciiLower demoG (str ''xcat'') =
       Inr ([str ''xcat''], [str ''xcat''], [str ''NOUN,sing''])
   \<and> length [str ''NOUN,sing''] = length [str ''xcat'']
   \<and> analysis asciiLower demoG (str ''xcat'') (str ''xcat'', str ''xcat'', str ''NOUN,sing'')
   \<and> probDAWG demoG = Some demoProb \<and> wordsDAWG demoG = Some demoWords
   \<and> similarItems demoWords (str ''xcat'') = []
   \<and> Parse demoG (str ''xcat'') = Inr ([], [], [])
   \<and> (\<exists>ws ns ts. XParse asciiLower demoG (str ''at'') = Inr (ws, ns, ts)
         \<and> length ns = length ws \<and> length ts = length ws)"
proof -
  have g: "probDAWG demoG = Some demoProb" "wordsDAWG demoG = Some demoWords"
    by (simp_all add: demoG_def)
  have s: "similarItems demoWords (str ''xcat'') = []"
    by (simp add: demoWords_def catTo_def str_def)
  note t1 = equal_length_lists [of demoG "str ''cats''" "[str ''cats'', str ''cats'']"
      "[str ''cat'', str ''cat'']" "[str ''VERB,sing,3per'', str ''NOUN,plur'']" asciiLower]
  note t2 = equal_length_lists [of demoG "str ''xcat''" _ _ _ asciiLower "[str ''xcat'']"
      "[str ''xcat'']" "[str ''NOUN,sing'']" demoProb demoWords]
  note t3 = equal_length_lists [of demoG "str ''at''" _ _ _ asciiLower]
  have d: "\<forall>i<length [str ''cats'', str ''cats''].
      dictionaryRow demoG (str ''cats'')
        ([str ''cats'', str ''cats''] ! i, [str ''cat'', str ''cat''] ! i,
         [str ''VERB,sing,3per'', str ''NOUN,plur''] ! i)"
    using t1 demo_Parse_cats by blast
  have d0: "dictionaryRow demoG (str ''cats'') (str ''cats'', str ''cat'', str ''VERB,sing,3per'')"
    using d [THEN spec, of 0] by simp
  have d1: "dictionaryRow demoG (str ''cats'') (str ''cats'', str ''cat'', str ''NOUN,plur'')"
    using d [THEN spec, of 1] by simp
  have a: "\<forall>i<length [str ''xcat''].
      analysis asciiLower demoG (str ''xcat'')
        ([str ''xcat''] ! i, [str ''xcat''] ! i, [str ''NOUN,sing''] ! i)"
    using t2 demo_XParse_xcat by blast
  have a0: "analysis asciiLower demoG (str ''xcat'') (str ''xcat'', str ''xcat'', str ''NOUN,sing'')"
    using a [THEN spec, of 0] by simp
  show ?thesis
    using demo_wellFormed demo_Parse_cats demo_XParse_xcat g s t1 t2 t3 d0 d1 a0 by simp
qed




section \<open>The productivity filter\<close>

lemma appendProductive_productive:
  "appendProductive prefix ws ns ts i acc = Inr acc' \<Longrightarrow> productiveTags acc \<Longrightarrow> productiveTags acc'"
proof (induction ts arbitrary: i acc)
  case Nil
  then show ?case by simp
next
  case (Cons t ts)
  show ?case
  proof (cases "productive t")
    case False
    then show ?thesis using Cons by simp
  next
    case True
    then obtain w n where
      "appendProductive prefix ws ns ts (Suc i)
         (fst acc @ [prefix @ w], fst (snd acc) @ [prefix @ n], snd (snd acc) @ [t]) = Inr acc'"
      using Cons.prems(1) by (auto simp: andThen_eq_Inr)
    from Cons.IH [OF this] show ?thesis
      using Cons.prems(2) True by (simp add: productiveTags_def)
  qed
qed

lemma knownPrefixLoop_productive:
  "knownPrefixLoop rec word ps acc = Inr acc' \<Longrightarrow> productiveTags acc \<Longrightarrow> productiveTags acc'"
proof (induction ps arbitrary: acc)
  case Nil
  then show ?case by simp
next
  case (Cons p ps)
  show ?case
  proof (cases "HasPrefix word p \<and> \<not> length (TrimPrefix word p) < 3")
    case False
    then have "knownPrefixLoop rec word (p # ps) acc = knownPrefixLoop rec word ps acc"
      by (auto simp: Let_def)
    then show ?thesis using Cons by simp
  next
    case True
    then obtain ws ns ts a where
      1: "appendProductive p ws ns ts 0 acc = Inr a"
      and 2: "knownPrefixLoop rec word ps a = Inr acc'"
      using Cons.prems(1) by (auto simp: Let_def andThen_eq_Inr)
    show ?thesis
      using Cons.IH [OF 2] appendProductive_productive [OF 1 Cons.prems(2)] by simp
  qed
qed

lemma unknownPrefixLoop_productive:
  "unknownPrefixLoop G splits acc = Inr acc' \<Longrightarrow> productiveTags acc \<Longrightarrow> productiveTags acc'"
proof (induction splits arbitrary: acc)
  case Nil
  then show ?case by simp
next
  case (Cons sp splits)
  then obtain ws ns ts a where
    1: "appendProductive (fst sp) ws ns ts 0 acc = Inr a"
    and 2: "unknownPrefixLoop G splits a = Inr acc'"
    by (auto simp: andThen_eq_Inr)
  show ?case
    using Cons.IH [OF 2] appendProductive_productive [OF 1 Cons.prems(2)] by simp
qed

lemma predictValues_productive:
  "predictValues G wordStart key vs st = Inr st' \<Longrightarrow> productiveTags (fst st)
     \<Longrightarrow> productiveTags (fst st')"
proof (induction vs arbitrary: st)
  case Nil
  then show ?case by simp
next
  case (Cons v vs)
  from Cons.prems(1) show ?case
  proof (cases rule: predictValues_Cons_cases)
    case skip
    then show ?thesis using Cons.IH Cons.prems(2) by simp
  next
    case (dup tc)
    then show ?thesis using Cons.prems(2) by simp
  next
    case (add tag nrm tc)
    from Cons.IH [OF add(2)] show ?thesis
      using Cons.prems(2) add(1) by (simp add: productiveTags_def)
  qed
qed

lemma predictItems_productive:
  "predictItems G wordStart items st = Inr st' \<Longrightarrow> productiveTags (fst st)
     \<Longrightarrow> productiveTags (fst st')"
proof (induction items arbitrary: st)
  case Nil
  then show ?case by simp
next
  case (Cons it items)
  then obtain a where 1: "predictValues G wordStart (fst it) (snd it) st = Inr a"
    and 2: "predictItems G wordStart items a = Inr st'"
    by (auto simp: andThen_eq_Inr)
  show ?case
    using Cons.IH [OF 2] predictValues_productive [OF 1 Cons.prems(2)] by simp
qed

lemma predictSplits_productive:
  "predictSplits G d sps st = Inr st' \<Longrightarrow> productiveTags (fst st) \<Longrightarrow> productiveTags (fst st')"
proof (induction sps arbitrary: st)
  case Nil
  then show ?case by simp
next
  case (Cons sp sps)
  then obtain a where 1: "predictItems G (fst sp) (similarItems d (snd sp)) st = Inr a"
    and 2: "(if snd a > 1 then Inr a else predictSplits G d sps a) = Inr st'"
    by (auto simp: andThen_eq_Inr)
  have a: "productiveTags (fst a)"
    using predictItems_productive [OF 1 Cons.prems(2)] .
  show ?case
    using 2 a Cons.IH [of a] by (auto split: if_splits)
qed

lemma predictPrefixes_productive:
  "predictPrefixes G word splits ps k acc = Inr acc' \<Longrightarrow> productiveTags acc \<Longrightarrow> productiveTags acc'"
proof (induction ps arbitrary: k acc)
  case Nil
  then show ?case by simp
next
  case (Cons p ps)
  show ?case
  proof (cases "HasPrefix word p")
    case False
    then show ?thesis using Cons by simp
  next
    case True
    then obtain d st where
      1: "predictSplits G d (rev splits) (acc, 0) = Inr st"
      and 2: "predictPrefixes G word splits ps (Suc k) (fst st) = Inr acc'"
      using Cons.prems(1) by (auto simp: andThen_eq_Inr)
    show ?thesis
      using Cons.IH [OF 2] predictSplits_productive [OF 1] Cons.prems(2) by simp
  qed
qed

lemma guessAndPredict_productive:
  "guessAndPredict G word acc = Inr acc' \<Longrightarrow> productiveTags acc \<Longrightarrow> productiveTags acc'"
  by (auto simp: guessAndPredict_def andThen_eq_Inr split: if_splits
      dest: unknownPrefixLoop_productive predictPrefixes_productive)

lemma HasPrefix_set: "HasPrefix s p \<Longrightarrow> set p \<subseteq> set s"
  by (auto simp: HasPrefix_iff)

lemma Contains_iff: "Contains s sub \<longleftrightarrow> (\<exists>a b. s = a @ sub @ b)"
proof (induction s)
  case Nil
  then show ?case by simp
next
  case (Cons c cs)
  have "(\<exists>a b. c # cs = a @ sub @ b) \<longleftrightarrow> (\<exists>b. c # cs = sub @ b) \<or> (\<exists>a b. cs = a @ sub @ b)"
  proof
    assume "\<exists>a b. c # cs = a @ sub @ b"
    then obtain a b where ab: "c # cs = a @ sub @ b" by blast
    show "(\<exists>b. c # cs = sub @ b) \<or> (\<exists>a b. cs = a @ sub @ b)"
    proof (cases a)
      case Nil
      then show ?thesis using ab by auto
    next
      case (Cons x a')
      then have "cs = a' @ sub @ b" using ab by simp
      then show ?thesis by blast
    qed
  next
    assume "(\<exists>b. c # cs = sub @ b) \<or> (\<exists>a b. cs = a @ sub @ b)"
    then show "\<exists>a b. c # cs = a @ sub @ b"
    proof
      assume "\<exists>b. c # cs = sub @ b"
      then obtain b where "c # cs = [] @ sub @ b" by auto
      then show ?thesis by blast
    next
      assume "\<exists>a b. cs = a @ sub @ b"
      then obtain a b where "c # cs = (c # a) @ sub @ b" by auto
      then show ?thesis by blast
    qed
  qed
  then show ?case using Cons by (simp add: HasPrefix_iff)
qed

text \<open>
  C5. No analysis produced by the known-prefix strategy, the unknown-prefix guess or the
  suffix prediction carries a tag that contains a grammeme of the non-productive set
  (NUMR, NPRO, PRED, PREP, CONJ, PRCL, INTJ, Apro): each of the three loops only
  appends tags that pass \<open>productive\<close>, so it keeps an accumulator of productive tags
  productive (in \<open>XParse\<close> the accumulator starts empty); in particular, for a word
  without a hyphen that the dictionary does not hold, where only these three
  strategies can contribute, every tag that \<open>XParse\<close> returns is productive. A tag is
  productive exactly when none of the eight grammemes occurs in it as a substring.
\<close>

theorem productivity_filter:
  "(knownPrefixLoop rec word ps acc = Inr acc' \<longrightarrow> list_all productive (snd (snd acc))
      \<longrightarrow> list_all productive (snd (snd acc')))
   \<and> (unknownPrefixLoop G splits acc = Inr acc' \<longrightarrow> list_all productive (snd (snd acc))
      \<longrightarrow> list_all productive (snd (snd acc')))
   \<and> (predictPrefixes G word splits pfx k acc = Inr acc' \<longrightarrow> list_all productive (snd (snd acc))
      \<longrightarrow> list_all productive (snd (snd acc')))
   \<and> (XParse L G w = Inr (ws, ns, ts) \<longrightarrow> Parse G (ToLower L w) = Inr ([], [], [])
      \<longrightarrow> hyphen \<notin> set (ToLower L w) \<longrightarrow> list_all productive ts)
   \<and> (productive tag \<longleftrightarrow>
        (\<forall>g\<in>set (map str [''NUMR'', ''NPRO'', ''PRED'', ''PREP'', ''CONJ'', ''PRCL'', ''INTJ'',
                              ''Apro'']). \<not> (\<exists>a b. tag = a @ g @ b)))"
proof -
  have 1: "knownPrefixLoop rec word ps acc = Inr acc' \<longrightarrow> list_all productive (snd (snd acc))
      \<longrightarrow> list_all productive (snd (snd acc'))"
    using knownPrefixLoop_productive [of rec word ps acc acc'] by (simp add: productiveTags_def)
  have 2: "unknownPrefixLoop G splits acc = Inr acc' \<longrightarrow> list_all productive (snd (snd acc))
      \<longrightarrow> list_all productive (snd (snd acc'))"
    using unknownPrefixLoop_productive [of G splits acc acc'] by (simp add: productiveTags_def)
  have 3: "predictPrefixes G word splits pfx k acc = Inr acc' \<longrightarrow> list_all productive (snd (snd acc))
      \<longrightarrow> list_all productive (snd (snd acc'))"
    using predictPrefixes_productive [of G word splits pfx k acc acc']
    by (simp add: productiveTags_def)
  have 4: "list_all productive ts"
    if x: "XParse L G w = Inr (ws, ns, ts)" and p: "Parse G (ToLower L w) = Inr ([], [], [])"
      and h: "hyphen \<notin> set (ToLower L w)"
  proof -
    have e: "productiveTags ([], [], [])" by (simp add: productiveTags_def)
    have "productiveTags (ws, ns, ts)"
      using x
    proof (cases rule: XParse_cases)
      case dictionary
      then show ?thesis using p by simp
    next
      case (particle q)
      then show ?thesis using h by simp
    next
      case (adverb q)
      then have "hyphen \<in> set (ToLower L w)"
        using HasPrefix_set [of "ToLower L w" po_hyphen] by (auto simp: po_hyphen_def hyphen_def)
      then show ?thesis using h by simp
    next
      case (knownPrefix q)
      then show ?thesis using p e knownPrefixLoop_productive by auto
    next
      case (compound q acc)
      then show ?thesis using h by simp
    next
      case (guessed q acc)
      then have "productiveTags acc" using p e knownPrefixLoop_productive by auto
      then show ?thesis using guessed(5) guessAndPredict_productive by blast
    next
      case (guessedHyphen q acc acc')
      then show ?thesis using h by simp
    qed
    then show ?thesis by (simp add: productiveTags_def)
  qed
  have 5: "productive tag \<longleftrightarrow>
        (\<forall>g\<in>set (map str [''NUMR'', ''NPRO'', ''PRED'', ''PREP'', ''CONJ'', ''PRCL'', ''INTJ'',
                              ''Apro'']). \<not> (\<exists>a b. tag = a @ g @ b))"
    unfolding productive_def nonproductiveGrammemes_def list_all_iff Contains_iff ..
  show ?thesis using 1 2 3 4 5 by (intro conjI) blast+
qed

lemma demo_filtered:
  "unknownPrefixLoop demoG [(str ''x'', catTo)] ([], [], []) = Inr ([], [], [])"
  by (simp add: demo_Parse_catTo productive_def nonproductiveGrammemes_def str_def)

theorem productivity_filter_witness:
  "XParse asciiLower demoG (str ''xcat'') =
     Inr ([str ''xcat''], [str ''xcat''], [str ''NOUN,sing''])
   \<and> Parse demoG (ToLower asciiLower (str ''xcat'')) = Inr ([], [], [])
   \<and> hyphen \<notin> set (ToLower asciiLower (str ''xcat''))
   \<and> list_all productive [str ''NOUN,sing'']
   \<and> Parse demoG catTo = Inr ([catTo], [catTo], [str ''CONJ''])
   \<and> \<not> productive (str ''CONJ'')
   \<and> unknownPrefixLoop demoG [(str ''x'', catTo)] ([], [], []) = Inr ([], [], [])
   \<and> list_all productive (snd (snd ([] :: gostring list, [] :: gostring list, [] :: gostring list)))"
proof -
  have l: "ToLower asciiLower (str ''xcat'') = str ''xcat''"
    by (simp add: ToLower_def asciiLower_def str_def)
  have h: "hyphen \<notin> set (ToLower asciiLower (str ''xcat''))"
    unfolding l by (simp add: hyphen_def str_def)
  have p: "Parse demoG (ToLower asciiLower (str ''xcat'')) = Inr ([], [], [])"
    unfolding l by (rule demo_Parse_absent)
  have c: "\<not> productive (str ''CONJ'')"
    by (simp add: productive_def nonproductiveGrammemes_def str_def)
  note t = productivity_filter [where G = demoG and L = asciiLower and w = "str ''xcat''"
      and ws = "[str ''xcat'']" and ns = "[str ''xcat'']" and ts = "[str ''NOUN,sing'']"
      and splits = "[(str ''x'', catTo)]" and acc = "([], [], [])" and acc' = "([], [], [])"]
  have n: "list_all productive [str ''NOUN,sing'']"
    using t [THEN conjunct2, THEN conjunct2, THEN conjunct2, THEN conjunct1]
      demo_XParse_xcat p h by blast
  have e: "list_all productive (snd (snd ([] :: gostring list, [] :: gostring list,
      [] :: gostring list)))"
    using t [THEN conjunct2, THEN conjunct1] demo_filtered by simp
  show ?thesis
    using demo_XParse_xcat p h n demo_Parse_catTo c demo_filtered e by (intro conjI)
qed

section \<open>Particles after a hyphen\<close>

lemma particles_no_proper_suffix:
  "list_all (\<lambda>p. list_all (\<lambda>s. HasSuffix p s \<longrightarrow> s = p) particlesAfterHyphen) particlesAfterHyphen"
  by (simp add: particlesAfterHyphen_def HasSuffix_def)

lemma particle_unique:
  assumes "p \<in> set particlesAfterHyphen" and "s \<in> set particlesAfterHyphen"
    and "HasSuffix (b @ p) s"
  shows "s = p"
proof -
  from assms(3) obtain t where t: "b @ p = t @ s" by (auto simp: HasSuffix_iff)
  then consider u where "p = u @ s" | u where "s = u @ p"
    by (auto simp: append_eq_append_conv2)
  then show ?thesis
  proof cases
    case 1
    then have "HasSuffix p s" by (auto simp: HasSuffix_iff)
    then show ?thesis
      using particles_no_proper_suffix assms(1,2) by (auto simp: list_all_iff)
  next
    case 2
    then have "HasSuffix s p" by (auto simp: HasSuffix_iff)
    then show ?thesis
      using particles_no_proper_suffix assms(1,2) by (auto simp: list_all_iff)
  qed
qed

lemma particleStrip_reattach:
  assumes "p \<in> set ps" and "\<forall>s\<in>set ps. HasSuffix (b @ p) s \<longrightarrow> s = p"
    and "rec b = Inr (ws, ns, ts)" and "ws \<noteq> []" and "length ns = length ws"
  shows "particleStrip rec (b @ p) ps =
           Inr (Some (map (\<lambda>w. w @ p) ws, map (\<lambda>n. n @ p) ns, ts))"
  using assms(1,2)
proof (induction ps)
  case Nil
  then show ?case by simp
next
  case (Cons s ps)
  show ?case
  proof (cases "s = p")
    case True
    have "HasSuffix (b @ p) p" by (auto simp: HasSuffix_iff)
    then show ?thesis
      using True assms(3-5) by (simp add: appendSuffix_def)
  next
    case False
    then have "\<not> HasSuffix (b @ p) s" using Cons.prems(2) by auto
    then show ?thesis using Cons False by simp
  qed
qed

lemma XParse_ToLower:
  assumes "ToLower L (ToLower L w) = ToLower L w"
  shows "XParse L G (ToLower L w) = XParse L G w"
  unfolding XParse_unfold [of L G w] XParse_unfold [of L G "ToLower L w"] assms ..

text \<open>
  C6, as the code has it. For a word of the form base, hyphen, particle, with the
  particle in the known set and the base analyzable, and which the dictionary analyzer
  does not hold itself, \<open>XParse\<close> returns the analyses of the base with the literal
  hyphen and particle appended to every word and every norm, and the tag list of
  \<open>XParse\<close> of the base. (The entries of \<open>particlesAfterHyphen\<close> include the hyphen;
  \<open>unicode.ToLower\<close> is idempotent and leaves the particle as it is.)
\<close>

theorem particle_reattached:
  assumes "particle \<in> set particlesAfterHyphen"
    and "\<forall>c. L (L c) = L c" and "ToLower L particle = particle"
    and "Parse G (ToLower L (base @ particle)) = Inr ([], [], [])"
    and "XParse L G base = Inr (ws, ns, ts)" and "ws \<noteq> []"
  shows "XParse L G (base @ particle) =
           Inr (map (\<lambda>w. w @ particle) ws, map (\<lambda>n. n @ particle) ns, ts)"
proof -
  let ?b = "ToLower L base"
  have w: "ToLower L (base @ particle) = ?b @ particle"
    using assms(3) by (simp add: ToLower_def)
  have "ToLower L ?b = ?b" using assms(2) by (simp add: ToLower_def)
  then have rec: "XParse L G ?b = Inr (ws, ns, ts)"
    using XParse_ToLower [of L base G] assms(5) by simp
  have len: "length ns = length ws"
    using XParse_sameLength [OF assms(5)] by (simp add: sameLength_def)
  have "particle \<noteq> []" using particles_nonempty [OF assms(1)] .
  moreover have "hd particle = hyphen"
    using assms(1) by (auto simp: particlesAfterHyphen_def hyphen_def)
  ultimately have h: "hyphen \<in> set (?b @ particle)"
    by (cases particle) auto
  have u: "\<forall>s\<in>set particlesAfterHyphen. HasSuffix (?b @ particle) s \<longrightarrow> s = particle"
    using particle_unique [OF assms(1)] by blast
  have strip: "particleStrip (XParse L G) (?b @ particle) particlesAfterHyphen =
      Inr (Some (map (\<lambda>w. w @ particle) ws, map (\<lambda>n. n @ particle) ns, ts))"
    using particleStrip_reattach [where rec = "XParse L G" and b = ?b, OF assms(1) u rec assms(6) len] .
  show ?thesis
    unfolding XParse_unfold [of L G "base @ particle"] w
    using assms(4) [unfolded w] h strip by simp
qed

lemma asciiLower_idem: "asciiLower (asciiLower c) = asciiLower c"
  by (simp add: asciiLower_def)

lemma demo_XParse_cats:
  "XParse asciiLower demoG (str ''cats'') =
     Inr ([str ''cats'', str ''cats''], [str ''cat'', str ''cat''],
          [str ''VERB,sing,3per'', str ''NOUN,plur''])"
proof -
  have l: "ToLower asciiLower (str ''cats'') = str ''cats''"
    by (simp add: ToLower_def asciiLower_def str_def)
  show ?thesis
    by (rule XParse_found) (simp_all add: l demo_Parse_cats)
qed

lemma demo_XParse_cat:
  "XParse asciiLower demoG (str ''cat'') = Inr ([str ''cat''], [str ''cat''], [str ''NOUN,sing''])"
proof -
  have l: "ToLower asciiLower (str ''cat'') = str ''cat''"
    by (simp add: ToLower_def asciiLower_def str_def)
  show ?thesis
    by (rule XParse_found) (simp_all add: l demo_Parse_cat)
qed

lemma demo_XParse_catTo:
  "XParse asciiLower demoG catTo = Inr ([catTo], [catTo], [str ''CONJ''])"
proof -
  have l: "ToLower asciiLower catTo = catTo"
    by (simp add: ToLower_def asciiLower_def catTo_def str_def)
  show ?thesis
    by (rule XParse_found) (simp_all add: l demo_Parse_catTo)
qed

theorem particle_reattached_witness:
  "[0x2D, 0x43A, 0x430] \<in> set particlesAfterHyphen
   \<and> (\<forall>c. asciiLower (asciiLower c) = asciiLower c)
   \<and> ToLower asciiLower [0x2D, 0x43A, 0x430] = [0x2D, 0x43A, 0x430]
   \<and> Parse demoG (ToLower asciiLower (str ''cats'' @ [0x2D, 0x43A, 0x430])) = Inr ([], [], [])
   \<and> XParse asciiLower demoG (str ''cats'') =
       Inr ([str ''cats'', str ''cats''], [str ''cat'', str ''cat''],
            [str ''VERB,sing,3per'', str ''NOUN,plur''])
   \<and> [str ''cats'', str ''cats''] \<noteq> []
   \<and> XParse asciiLower demoG (str ''cats'' @ [0x2D, 0x43A, 0x430]) =
       Inr ([str ''cats'' @ [0x2D, 0x43A, 0x430], str ''cats'' @ [0x2D, 0x43A, 0x430]],
            [str ''cat'' @ [0x2D, 0x43A, 0x430], str ''cat'' @ [0x2D, 0x43A, 0x430]],
            [str ''VERB,sing,3per'', str ''NOUN,plur''])"
proof -
  have 1: "[0x2D, 0x43A, 0x430] \<in> set particlesAfterHyphen"
    by (simp add: particlesAfterHyphen_def)
  have 2: "\<forall>c. asciiLower (asciiLower c) = asciiLower c"
    by (simp add: asciiLower_idem)
  have 3: "ToLower asciiLower [0x2D, 0x43A, 0x430] = [0x2D, 0x43A, 0x430]"
    by (simp add: ToLower_def asciiLower_def)
  have 4: "Parse demoG (ToLower asciiLower (str ''cats'' @ [0x2D, 0x43A, 0x430])) = Inr ([], [], [])"
    by (simp add: ToLower_def asciiLower_def demo_defs eval_defs)
  have 6: "[str ''cats'', str ''cats''] \<noteq> []" by simp
  show ?thesis
    using 1 2 3 4 6 demo_XParse_cats particle_reattached [OF 1 2 3 4 demo_XParse_cats 6]
    by simp
qed

theorem particle_dictionary_counterexample:
  "[0x2D, 0x442, 0x43E] \<in> set particlesAfterHyphen
   \<and> catTo = str ''cat'' @ [0x2D, 0x442, 0x43E]
   \<and> XParse asciiLower demoG (str ''cat'') = Inr ([str ''cat''], [str ''cat''], [str ''NOUN,sing''])
   \<and> XParse asciiLower demoG catTo = Inr ([catTo], [catTo], [str ''CONJ''])
   \<and> [str ''CONJ''] \<noteq> [str ''NOUN,sing'']"
proof -
  have 1: "[0x2D, 0x442, 0x43E] \<in> set particlesAfterHyphen"
    by (simp add: particlesAfterHyphen_def)
  have 2: "catTo = str ''cat'' @ [0x2D, 0x442, 0x43E]" by (simp add: catTo_def)
  have 3: "[str ''CONJ''] \<noteq> [str ''NOUN,sing'']" by (simp add: str_def)
  show ?thesis using 1 2 3 demo_XParse_cat demo_XParse_catTo by (intro conjI)
qed

end
